theory Spec2Isabelle
  imports
    Complex_Main
    "HOL-Library.Word"
    "HOL-Library.Char_ord"
    "HOL-Library.List_Lexorder"
    "HOL-Library.Multiset"
begin

unbundle bit_operations_syntax

section \<open>Persistent AVL tree over string keys (suffix-avl-persistent.cc)\<close>

text \<open>
  Keys are \<open>std::string_view\<close>s, compared bytewise and then by length; that is the
  lexicographic order on \<open>string\<close> given by \<open>Char_ord\<close> and \<open>List_Lexorder\<close>.

  The process can stop on a failed \<open>assert\<close> (debug builds only), on a call of \<open>abort()\<close>,
  and on a dereference of a null pointer. The code that works on the heap (further down) can
  also read a node that is not allocated (\<open>UseAfterFree\<close>); and its recursion over pointers
  is bounded by a fuel argument, \<open>OutOfFuel\<close> being the outcome when the bound is reached
  (the theorems show that enough fuel always exists).
\<close>

datatype error = AssertionFailed | Aborted | NullDeref | UseAfterFree | OutOfFuel

type_synonym 'a result = "error + 'a"

definition bind_result :: "'a result \<Rightarrow> ('a \<Rightarrow> 'b result) \<Rightarrow> 'b result" where
  "bind_result m f = (case m of Inl e \<Rightarrow> Inl e | Inr x \<Rightarrow> f x)"

text \<open>
  \<open>assert(c)\<close>: with \<open>NDEBUG\<close> defined (first argument \<open>True\<close>) the macro expands to
  nothing; otherwise a false condition aborts the process.
\<close>

definition assert :: "bool \<Rightarrow> bool \<Rightarrow> unit result" where
  "assert ndebug c = (if ndebug \<or> c then Inr () else Inl AssertionFailed)"

text \<open>
  \<open>struct Node\<close>. All fields but \<open>refcount\<close> are \<open>const\<close>, so a \<open>const Node*\<close> is
  modelled by the immutable tree it points to, \<open>Null\<close> being \<open>nullptr\<close>. The type
  parameter is the type of the \<open>refcount\<close> field: the construction and query code
  below never reads it and works on nodes of type \<open>unit node\<close>; \<open>Validate\<close> reads it and
  works on \<open>int node\<close>, a node together with the counters currently stored in it.
  \<open>height\<close> is a C++ \<open>int\<close>; heights stay far below \<open>2^31\<close>, so it is an \<open>int\<close> here.
\<close>

datatype 'r node =
  Null
  | Node (refcount: 'r) (height: int) (left: "'r node") (val: string) (right: "'r node")

fun HeightOf :: "'r node \<Rightarrow> int" where
  "HeightOf Null = 0"
| "HeightOf (Node rc h l v r) = h"

definition BalanceOf :: "'r node \<Rightarrow> 'r node \<Rightarrow> int" where
  "BalanceOf l r = HeightOf r - HeightOf l"

text \<open>\<open>Node(std::string_view value)\<close>: a leaf of height 1.\<close>

definition new_leaf :: "string \<Rightarrow> unit node" where
  "new_leaf v = Node () 1 Null v Null"

text \<open>\<open>Node(left, value, right)\<close>: the height is computed, then the balance asserted.\<close>

definition new_node :: "bool \<Rightarrow> unit node \<Rightarrow> string \<Rightarrow> unit node \<Rightarrow> unit node result" where
  "new_node ndebug l v r =
     bind_result (assert ndebug (\<bar>BalanceOf l r\<bar> < 2))
       (\<lambda>_. Inr (Node () (max (HeightOf l) (HeightOf r) + 1) l v r))"

text \<open>The conditions \<open>!a || a->value < k\<close> and \<open>!d || d->value > k\<close> of \<open>mk2\<close> and \<open>mk3\<close>.\<close>

fun null_or_less :: "'r node \<Rightarrow> string \<Rightarrow> bool" where
  "null_or_less Null k = True"
| "null_or_less (Node rc h l v r) k = (v < k)"

fun null_or_greater :: "'r node \<Rightarrow> string \<Rightarrow> bool" where
  "null_or_greater Null k = True"
| "null_or_greater (Node rc h l v r) k = (v > k)"

definition mk3 ::
  "bool \<Rightarrow> unit node \<Rightarrow> string \<Rightarrow> unit node \<Rightarrow> string \<Rightarrow> unit node \<Rightarrow> string \<Rightarrow> unit node
    \<Rightarrow> unit node result" where
  "mk3 ndebug a k1 b k2 c k3 d =
     bind_result (assert ndebug (null_or_less a k1)) (\<lambda>_.
     bind_result (assert ndebug (k1 < k2)) (\<lambda>_.
     bind_result (assert ndebug (null_or_less b k2)) (\<lambda>_.
     bind_result (assert ndebug (k2 < k3)) (\<lambda>_.
     bind_result (assert ndebug (null_or_less c k3)) (\<lambda>_.
     bind_result (assert ndebug (null_or_greater d k3)) (\<lambda>_.
     bind_result (new_node ndebug a k1 b) (\<lambda>ab.
     bind_result (new_node ndebug c k3 d) (\<lambda>cd.
       new_node ndebug ab k2 cd))))))))"

definition mk2 ::
  "bool \<Rightarrow> unit node \<Rightarrow> string \<Rightarrow> unit node \<Rightarrow> string \<Rightarrow> unit node \<Rightarrow> bool
    \<Rightarrow> unit node result" where
  "mk2 ndebug a k1 b k2 c root_at_k1 =
     bind_result (assert ndebug (null_or_less a k1)) (\<lambda>_.
     bind_result (assert ndebug (k1 < k2)) (\<lambda>_.
     bind_result (assert ndebug (null_or_less b k2)) (\<lambda>_.
     bind_result (assert ndebug (null_or_greater c k2)) (\<lambda>_.
       if root_at_k1
       then bind_result (new_node ndebug b k2 c) (\<lambda>bc. new_node ndebug a k1 bc)
       else bind_result (new_node ndebug a k1 b) (\<lambda>ab. new_node ndebug ab k2 c)))))"

text \<open>
  \<open>MakeAndRebalanceSlowPath\<close>. \<open>left->RawLeft()\<close> on a null \<open>left\<close> is a null dereference
  when the preceding \<open>assert(left)\<close> is compiled out.
\<close>

definition MakeAndRebalanceSlowPath ::
  "bool \<Rightarrow> unit node \<Rightarrow> string \<Rightarrow> unit node \<Rightarrow> int \<Rightarrow> unit node result" where
  "MakeAndRebalanceSlowPath ndebug l v r balance =
     (if balance = - 2 then
        bind_result (assert ndebug (l \<noteq> Null)) (\<lambda>_.
          case l of
            Null \<Rightarrow> Inl NullDeref
          | Node _ _ ll lv lr \<Rightarrow>
              if BalanceOf ll lr = 1 then
                bind_result (assert ndebug (lr \<noteq> Null)) (\<lambda>_.
                  case lr of
                    Null \<Rightarrow> Inl NullDeref
                  | Node _ _ lrl lrv lrr \<Rightarrow> mk3 ndebug ll lv lrl lrv lrr v r)
              else mk2 ndebug ll lv lr v r True)
      else
        bind_result (assert ndebug (balance = 2)) (\<lambda>_.
        bind_result (assert ndebug (r \<noteq> Null)) (\<lambda>_.
          case r of
            Null \<Rightarrow> Inl NullDeref
          | Node _ _ rl rv rr \<Rightarrow>
              if BalanceOf rl rr = - 1 then
                bind_result (assert ndebug (rl \<noteq> Null)) (\<lambda>_.
                  case rl of
                    Null \<Rightarrow> Inl NullDeref
                  | Node _ _ rll rlv rlr \<Rightarrow> mk3 ndebug l v rll rlv rlr rv rr)
              else mk2 ndebug l v rl rv rr False)))"

text \<open>
  The test \<open>(balance & 3) != 2\<close> of \<open>MakeAndRebalance\<close>, on a 32-bit two's-complement
  \<open>int\<close>.
\<close>

definition fast_path :: "int \<Rightarrow> bool" where
  "fast_path balance = (((word_of_int balance :: 32 word) AND 3) \<noteq> 2)"

definition MakeAndRebalance :: "bool \<Rightarrow> unit node \<Rightarrow> string \<Rightarrow> unit node \<Rightarrow> unit node result" where
  "MakeAndRebalance ndebug l v r =
     (let balance = BalanceOf l r in
      if fast_path balance then new_node ndebug l v r
      else MakeAndRebalanceSlowPath ndebug l v r balance)"

text \<open>\<open>AVLTree::Insert::R::Rec\<close>; \<open>node->GreaterThan(value)\<close> is \<open>value < node->value\<close>.\<close>

fun Rec :: "bool \<Rightarrow> unit node \<Rightarrow> string \<Rightarrow> unit node result" where
  "Rec ndebug Null x = Inr (new_leaf x)"
| "Rec ndebug (Node rc h l v r) x =
     (if x < v
      then bind_result (Rec ndebug l x) (\<lambda>l'. MakeAndRebalance ndebug l' v r)
      else bind_result (Rec ndebug r x) (\<lambda>r'. MakeAndRebalance ndebug l v r'))"

text \<open>
  \<open>struct AVLTree\<close>: \<open>std::optional<NodePtr> root\<close>. \<open>Insert\<close> replaces the root handle by a
  handle to the node that \<open>Rec\<close> returns.
\<close>

type_synonym 'r AVLTree = "'r node option"

definition Insert :: "bool \<Rightarrow> unit AVLTree \<Rightarrow> string \<Rightarrow> unit AVLTree result" where
  "Insert ndebug tree x =
     (case tree of
        None \<Rightarrow> Inr (Some (new_leaf x))
      | Some n \<Rightarrow> bind_result (Rec ndebug n x) (\<lambda>n'. Inr (Some n')))"

text \<open>
  \<open>AVLTree::LowerBound\<close>: the \<open>while (node)\<close> loop, with the loop variables \<open>node\<close> and
  \<open>best\<close>, and the function around it, which reads \<open>node->value\<close> before the loop.
\<close>

fun LowerBound_loop :: "'r node \<Rightarrow> 'r node \<Rightarrow> string \<Rightarrow> 'r node" where
  "LowerBound_loop Null best str = best"
| "LowerBound_loop (Node rc h l v r) best str =
     (if v < str then LowerBound_loop r best str
      else LowerBound_loop l (Node rc h l v r) str)"

definition LowerBound :: "'r AVLTree \<Rightarrow> string \<Rightarrow> 'r node result" where
  "LowerBound tree str =
     (case tree of
        None \<Rightarrow> Inr Null
      | Some Null \<Rightarrow> Inl NullDeref
      | Some (Node rc h l v r) \<Rightarrow>
          Inr (LowerBound_loop (Node rc h l v r) (if v \<ge> str then Node rc h l v r else Null) str))"

text \<open>
  \<open>AVLTree::DoValidate\<close>: \<open>Checker::Rec\<close> with the checker's fields \<open>prev_seen\<close>,
  \<open>total_height\<close> and \<open>node_count\<close> threaded through. Each \<open>assert\<close> is followed by an
  \<open>abort()\<close> under the same condition, so a violation stops the process in every build.
\<close>

record Checker =
  prev_seen :: "string option"
  total_height :: nat
  node_count :: nat

fun Checker_Rec :: "bool \<Rightarrow> int node \<Rightarrow> nat \<Rightarrow> Checker \<Rightarrow> (int \<times> Checker) result" where
  "Checker_Rec ndebug Null depth ck = Inr (0, ck)"
| "Checker_Rec ndebug (Node rc h l v r) depth ck =
     (let ck1 = ck\<lparr>total_height := total_height ck + depth, node_count := node_count ck + 1\<rparr> in
      bind_result (assert ndebug (rc > 0)) (\<lambda>_.
      if rc < 1 then Inl Aborted else
      bind_result (Checker_Rec ndebug l (depth + 1) ck1) (\<lambda>(left_height, ck2).
      bind_result
        (case prev_seen ck2 of
           None \<Rightarrow> Inr ()
         | Some p \<Rightarrow> bind_result (assert ndebug (v \<ge> p)) (\<lambda>_. if v < p then Inl Aborted else Inr ()))
        (\<lambda>_.
      bind_result (Checker_Rec ndebug r (depth + 1) (ck2\<lparr>prev_seen := Some v\<rparr>)) (\<lambda>(right_height, ck3).
      let expected_height = max left_height right_height + 1 in
      bind_result (assert ndebug (expected_height = h)) (\<lambda>_.
      if expected_height \<noteq> h then Inl Aborted else
      let balance = BalanceOf l r in
      bind_result (assert ndebug (\<bar>balance\<bar> < 2)) (\<lambda>_.
      if \<bar>balance\<bar> \<ge> 2 then Inl Aborted else
      Inr (h, ck3))))))))"

definition DoValidate :: "bool \<Rightarrow> int node \<Rightarrow> (int \<times> Checker) result" where
  "DoValidate ndebug n =
     Checker_Rec ndebug n 1 \<lparr>prev_seen = None, total_height = 0, node_count = 0\<rparr>"

definition Validate :: "bool \<Rightarrow> int AVLTree \<Rightarrow> unit result" where
  "Validate ndebug tree =
     (case tree of
        None \<Rightarrow> Inr ()
      | Some n \<Rightarrow> bind_result (DoValidate ndebug n) (\<lambda>_. Inr ()))"

section \<open>Specification vocabulary for the AVL tree\<close>

text \<open>The keys of a tree in in-order, and the key a returned node pointer holds.\<close>

fun inorder :: "'r node \<Rightarrow> string list" where
  "inorder Null = []"
| "inorder (Node rc h l v r) = inorder l @ v # inorder r"

definition keys_of :: "'r AVLTree \<Rightarrow> string list" where
  "keys_of tree = (case tree of None \<Rightarrow> [] | Some n \<Rightarrow> inorder n)"

fun node_key :: "'r node \<Rightarrow> string option" where
  "node_key Null = None"
| "node_key (Node rc h l v r) = Some v"

text \<open>
  The balance invariant and the stored-height invariant, both over the \<open>height\<close> fields as
  \<open>HeightOf\<close> reads them; \<open>avl\<close> is their conjunction.
\<close>

fun balanced :: "'r node \<Rightarrow> bool" where
  "balanced Null = True"
| "balanced (Node rc h l v r) =
     (balanced l \<and> balanced r \<and> \<bar>HeightOf l - HeightOf r\<bar> \<le> 1)"

fun heights_stored :: "'r node \<Rightarrow> bool" where
  "heights_stored Null = True"
| "heights_stored (Node rc h l v r) =
     (heights_stored l \<and> heights_stored r \<and> h = max (HeightOf l) (HeightOf r) + 1)"

fun avl :: "'r node \<Rightarrow> bool" where
  "avl Null = True"
| "avl (Node rc h l v r) =
     (avl l \<and> avl r \<and> \<bar>HeightOf l - HeightOf r\<bar> \<le> 1 \<and> h = max (HeightOf l) (HeightOf r) + 1)"

text \<open>The height and the number of nodes, recomputed from the shape alone.\<close>

fun shape_height :: "'r node \<Rightarrow> nat" where
  "shape_height Null = 0"
| "shape_height (Node rc h l v r) = max (shape_height l) (shape_height r) + 1"

fun node_count_of :: "'r node \<Rightarrow> nat" where
  "node_count_of Null = 0"
| "node_count_of (Node rc h l v r) = node_count_of l + node_count_of r + 1"

text \<open>
  A well-formed tree handle: the root handle, when present, is not null and the tree below
  it is an AVL tree.
\<close>

definition tree_inv :: "'r AVLTree \<Rightarrow> bool" where
  "tree_inv tree = (case tree of None \<Rightarrow> True | Some n \<Rightarrow> n \<noteq> Null \<and> avl n)"

text \<open>
  The driver's loop \<open>for (...) locations.Insert(...)\<close>: the keys of a list inserted one
  after the other; the first failure stops the process.
\<close>

fun InsertAll :: "bool \<Rightarrow> unit AVLTree \<Rightarrow> string list \<Rightarrow> unit AVLTree result" where
  "InsertAll ndebug tree [] = Inr tree"
| "InsertAll ndebug tree (k # ks) =
     bind_result (Insert ndebug tree k) (\<lambda>tree'. InsertAll ndebug tree' ks)"

text \<open>
  The reference test of the specification for the fast path of \<open>MakeAndRebalance\<close>:
  the balance is one of \<open>-1\<close>, \<open>0\<close>, \<open>1\<close>.
\<close>

definition spec_not_out_of_balance :: "int \<Rightarrow> bool" where
  "spec_not_out_of_balance balance = (balance \<in> {- 1, 0, 1})"

text \<open>
  The shapes that \<open>mk2\<close> and \<open>mk3\<close> give to the result of a rotation, written as tests on
  the arguments \<open>left\<close>, \<open>value\<close>, \<open>right\<close> and the result. A single rotation at a left-deep
  node promotes the left child: the old root \<open>value\<close> becomes its right child and takes the
  left child's right subtree as its left subtree. A double rotation promotes the left
  child's right child. The right-deep shapes are the mirror images.
\<close>

fun single_left :: "unit node \<Rightarrow> string \<Rightarrow> unit node \<Rightarrow> unit node \<Rightarrow> bool" where
  "single_left (Node _ _ ll lv lr) v r (Node _ _ a k1 (Node _ _ b k2 c)) =
     (a = ll \<and> k1 = lv \<and> b = lr \<and> k2 = v \<and> c = r)"
| "single_left _ _ _ _ = False"

fun double_left :: "unit node \<Rightarrow> string \<Rightarrow> unit node \<Rightarrow> unit node \<Rightarrow> bool" where
  "double_left (Node _ _ ll lv (Node _ _ lrl lrv lrr)) v r (Node _ _ (Node _ _ a k1 b) k2 (Node _ _ c k3 d)) =
     (a = ll \<and> k1 = lv \<and> b = lrl \<and> k2 = lrv \<and> c = lrr \<and> k3 = v \<and> d = r)"
| "double_left _ _ _ _ = False"

fun single_right :: "unit node \<Rightarrow> string \<Rightarrow> unit node \<Rightarrow> unit node \<Rightarrow> bool" where
  "single_right l v (Node _ _ rl rv rr) (Node _ _ (Node _ _ a k1 b) k2 c) =
     (a = l \<and> k1 = v \<and> b = rl \<and> k2 = rv \<and> c = rr)"
| "single_right _ _ _ _ = False"

fun double_right :: "unit node \<Rightarrow> string \<Rightarrow> unit node \<Rightarrow> unit node \<Rightarrow> bool" where
  "double_right l v (Node _ _ (Node _ _ rll rlv rlr) rv rr) (Node _ _ (Node _ _ a k1 b) k2 (Node _ _ c k3 d)) =
     (a = l \<and> k1 = v \<and> b = rll \<and> k2 = rlv \<and> c = rlr \<and> k3 = rv \<and> d = rr)"
| "double_right _ _ _ _ = False"

text \<open>
  Fibonacci numbers and the golden ratio, for the height bound; \<open>root_height\<close> is what the
  driver prints as \<open>locations.root.value()->height\<close> (0 for the empty tree).
\<close>

fun fib :: "nat \<Rightarrow> nat" where
  "fib 0 = 0"
| "fib (Suc 0) = 1"
| "fib (Suc (Suc n)) = fib (Suc n) + fib n"

definition golden_ratio :: real where
  "golden_ratio = (1 + sqrt 5) / 2"

definition root_height :: "'r AVLTree \<Rightarrow> int" where
  "root_height tree = (case tree of None \<Rightarrow> 0 | Some n \<Rightarrow> HeightOf n)"

text \<open>
  What the validator checks, as a predicate: every refcount is at least 1, the in-order key
  sequence never decreases, and every node is balanced with a correct stored height.
  \<open>checker_after\<close> is the state of the \<open>Checker\<close> after a successful walk over a subtree,
  \<open>validation_failure\<close> the way a violation stops the process: the \<open>assert\<close> fires first in
  a debug build, the \<open>abort()\<close> is reached with \<open>NDEBUG\<close>.
\<close>

definition refcounts_positive :: "int node \<Rightarrow> bool" where
  "refcounts_positive n = (\<forall>rc\<in>set_node n. rc \<ge> 1)"

definition validator_accepts :: "int node \<Rightarrow> bool" where
  "validator_accepts n =
     (refcounts_positive n \<and> sorted (inorder n) \<and> balanced n \<and> heights_stored n)"

fun depth_sum :: "'r node \<Rightarrow> nat \<Rightarrow> nat" where
  "depth_sum Null d = 0"
| "depth_sum (Node rc h l v r) d = d + depth_sum l (d + 1) + depth_sum r (d + 1)"

definition prev_list :: "string option \<Rightarrow> string list" where
  "prev_list p = (case p of None \<Rightarrow> [] | Some k \<Rightarrow> [k])"

definition checker_after :: "Checker \<Rightarrow> int node \<Rightarrow> nat \<Rightarrow> Checker" where
  "checker_after ck n d =
     \<lparr>prev_seen = (if inorder n = [] then prev_seen ck else Some (last (inorder n))),
      total_height = total_height ck + depth_sum n d,
      node_count = node_count ck + node_count_of n\<rparr>"

definition checker_ok :: "int node \<Rightarrow> string option \<Rightarrow> bool" where
  "checker_ok n p = (refcounts_positive n \<and> avl n \<and> sorted (prev_list p @ inorder n))"

definition validation_failure :: "bool \<Rightarrow> error" where
  "validation_failure ndebug = (if ndebug then Aborted else AssertionFailed)"

text \<open>
  A tree with its refcount fields, seen by code that does not read them.
\<close>

definition forget_refcounts :: "int AVLTree \<Rightarrow> unit AVLTree" where
  "forget_refcounts tree = map_option (map_node (\<lambda>_. ())) tree"

section \<open>The AVL tree on a heap of reference-counted nodes\<close>

text \<open>
  The same code once more, now with the nodes in a heap and the \<open>refcount\<close> field in
  play. A \<open>const Node*\<close> is an optional address, a heap is the list of its cells
  (\<open>None\<close> for a freed one), and \<open>new\<close> appends a cell, so a fresh address is never one
  in use. The fields but \<open>refcount\<close> are never written after construction.
\<close>

type_synonym addr = nat

record cell =
  c_refcount :: int
  c_height :: int
  c_left :: "addr option"
  c_right :: "addr option"
  c_value :: string

type_synonym heap = "cell option list"

definition lookup :: "heap \<Rightarrow> addr \<Rightarrow> cell option" where
  "lookup h a = (if a < length h then h ! a else None)"

text \<open>
  Reading through a pointer: null and freed nodes stop the process.
\<close>

definition deref :: "heap \<Rightarrow> addr option \<Rightarrow> cell result" where
  "deref h p =
     (case p of
        None \<Rightarrow> Inl NullDeref
      | Some a \<Rightarrow> (case lookup h a of None \<Rightarrow> Inl UseAfterFree | Some c \<Rightarrow> Inr c))"

text \<open>
  \<open>NodePtr::IncRef\<close> and \<open>NodePtr::DecRef\<close>. The constructors of \<open>NodePtr\<close> call the first, its
  destructor the second. \<open>delete p\<close> runs the destructor of \<open>Node\<close>, which destroys the members
  in reverse order of declaration (\<open>right\<close>, then \<open>left\<close>), and then frees the node. The
  recursion of \<open>DecRef\<close> through \<open>delete\<close> is bounded by the fuel argument.
\<close>

definition IncRef :: "heap \<Rightarrow> addr option \<Rightarrow> heap result" where
  "IncRef h p =
     (case p of
        None \<Rightarrow> Inr h
      | Some a \<Rightarrow>
          (case lookup h a of
             None \<Rightarrow> Inl UseAfterFree
           | Some c \<Rightarrow> Inr (h[a := Some (c\<lparr>c_refcount := c_refcount c + 1\<rparr>)])))"

fun DecRef :: "nat \<Rightarrow> heap \<Rightarrow> addr option \<Rightarrow> heap result" where
  "DecRef fuel h None = Inr h"
| "DecRef 0 h (Some a) = Inl OutOfFuel"
| "DecRef (Suc fuel) h (Some a) =
     (case lookup h a of
        None \<Rightarrow> Inl UseAfterFree
      | Some c \<Rightarrow>
          let c' = c\<lparr>c_refcount := c_refcount c - 1\<rparr>;
              h1 = h[a := Some c']
          in if c_refcount c' = 0 then
               bind_result (DecRef fuel h1 (c_right c)) (\<lambda>h2.
               bind_result (DecRef fuel h2 (c_left c)) (\<lambda>h3.
                 Inr (h3[a := None])))
             else Inr h1)"

text \<open>
  \<open>Node::HeightOf\<close>, \<open>Node::BalanceOf\<close> and the two constructors. \<open>Node(left, value, right)\<close>
  initialises \<open>height\<close>, then the handles \<open>left\<close> and \<open>right\<close> (an \<open>IncRef\<close> each), and
  then asserts the balance. A new node starts with refcount 0.
\<close>

definition HeightOf_h :: "heap \<Rightarrow> addr option \<Rightarrow> int result" where
  "HeightOf_h h p =
     (case p of
        None \<Rightarrow> Inr 0
      | Some a \<Rightarrow> (case lookup h a of None \<Rightarrow> Inl UseAfterFree | Some c \<Rightarrow> Inr (c_height c)))"

definition BalanceOf_h :: "heap \<Rightarrow> addr option \<Rightarrow> addr option \<Rightarrow> int result" where
  "BalanceOf_h h l r =
     bind_result (HeightOf_h h r) (\<lambda>hr. bind_result (HeightOf_h h l) (\<lambda>hl. Inr (hr - hl)))"

definition new_leaf_h :: "heap \<Rightarrow> string \<Rightarrow> heap \<times> addr" where
  "new_leaf_h h v =
     (h @ [Some \<lparr>c_refcount = 0, c_height = 1, c_left = None, c_right = None, c_value = v\<rparr>],
      length h)"

definition new_node_h ::
  "bool \<Rightarrow> heap \<Rightarrow> addr option \<Rightarrow> string \<Rightarrow> addr option \<Rightarrow> (heap \<times> addr) result" where
  "new_node_h ndebug h l v r =
     bind_result (HeightOf_h h l) (\<lambda>hl.
     bind_result (HeightOf_h h r) (\<lambda>hr.
     bind_result (IncRef h l) (\<lambda>h1.
     bind_result (IncRef h1 r) (\<lambda>h2.
     bind_result (assert ndebug (\<bar>hr - hl\<bar> < 2)) (\<lambda>_.
       Inr (h2 @ [Some \<lparr>c_refcount = 0, c_height = max hl hr + 1, c_left = l, c_right = r,
                        c_value = v\<rparr>],
            length h2))))))"

text \<open>
  The lambdas \<open>mk3\<close> and \<open>mk2\<close>; their asserts read \<open>a->value\<close> only in a debug build.
\<close>

definition null_or_less_h :: "heap \<Rightarrow> addr option \<Rightarrow> string \<Rightarrow> bool result" where
  "null_or_less_h h a k =
     (case a of None \<Rightarrow> Inr True | Some _ \<Rightarrow> bind_result (deref h a) (\<lambda>c. Inr (c_value c < k)))"

definition null_or_greater_h :: "heap \<Rightarrow> addr option \<Rightarrow> string \<Rightarrow> bool result" where
  "null_or_greater_h h a k =
     (case a of None \<Rightarrow> Inr True | Some _ \<Rightarrow> bind_result (deref h a) (\<lambda>c. Inr (c_value c > k)))"

definition assert_null_or_less :: "bool \<Rightarrow> heap \<Rightarrow> addr option \<Rightarrow> string \<Rightarrow> unit result" where
  "assert_null_or_less ndebug h a k =
     (if ndebug then Inr () else bind_result (null_or_less_h h a k) (assert ndebug))"

definition assert_null_or_greater :: "bool \<Rightarrow> heap \<Rightarrow> addr option \<Rightarrow> string \<Rightarrow> unit result" where
  "assert_null_or_greater ndebug h a k =
     (if ndebug then Inr () else bind_result (null_or_greater_h h a k) (assert ndebug))"

definition mk3_h ::
  "bool \<Rightarrow> heap \<Rightarrow> addr option \<Rightarrow> string \<Rightarrow> addr option \<Rightarrow> string \<Rightarrow> addr option \<Rightarrow> string
    \<Rightarrow> addr option \<Rightarrow> (heap \<times> addr) result" where
  "mk3_h ndebug h a k1 b k2 c k3 d =
     bind_result (assert_null_or_less ndebug h a k1) (\<lambda>_.
     bind_result (assert ndebug (k1 < k2)) (\<lambda>_.
     bind_result (assert_null_or_less ndebug h b k2) (\<lambda>_.
     bind_result (assert ndebug (k2 < k3)) (\<lambda>_.
     bind_result (assert_null_or_less ndebug h c k3) (\<lambda>_.
     bind_result (assert_null_or_greater ndebug h d k3) (\<lambda>_.
     bind_result (new_node_h ndebug h a k1 b) (\<lambda>(h1, ab).
     bind_result (new_node_h ndebug h1 c k3 d) (\<lambda>(h2, cd).
       new_node_h ndebug h2 (Some ab) k2 (Some cd)))))))))"

definition mk2_h ::
  "bool \<Rightarrow> heap \<Rightarrow> addr option \<Rightarrow> string \<Rightarrow> addr option \<Rightarrow> string \<Rightarrow> addr option \<Rightarrow> bool
    \<Rightarrow> (heap \<times> addr) result" where
  "mk2_h ndebug h a k1 b k2 c root_at_k1 =
     bind_result (assert_null_or_less ndebug h a k1) (\<lambda>_.
     bind_result (assert ndebug (k1 < k2)) (\<lambda>_.
     bind_result (assert_null_or_less ndebug h b k2) (\<lambda>_.
     bind_result (assert_null_or_greater ndebug h c k2) (\<lambda>_.
       if root_at_k1
       then bind_result (new_node_h ndebug h b k2 c) (\<lambda>(h1, bc). new_node_h ndebug h1 a k1 (Some bc))
       else bind_result (new_node_h ndebug h a k1 b) (\<lambda>(h1, ab). new_node_h ndebug h1 (Some ab) k2 c)))))"

text \<open>
  \<open>MakeAndRebalanceSlowPath\<close>: \<open>rebalance_h\<close> is its \<open>if (balance == -2) ... else ...\<close>; around
  it the function holds \<open>left\<close> and \<open>right\<close> in \<open>left_holder\<close> and \<open>right_holder\<close>, which are
  destroyed in reverse order when it returns.
\<close>

definition rebalance_h ::
  "bool \<Rightarrow> heap \<Rightarrow> addr option \<Rightarrow> string \<Rightarrow> addr option \<Rightarrow> int \<Rightarrow> (heap \<times> addr) result" where
  "rebalance_h ndebug h l v r balance =
     (if balance = - 2 then
        bind_result (assert ndebug (l \<noteq> None)) (\<lambda>_.
        bind_result (deref h l) (\<lambda>lc.
        bind_result (BalanceOf_h h (c_left lc) (c_right lc)) (\<lambda>lb.
          if lb = 1 then
            bind_result (assert ndebug (c_right lc \<noteq> None)) (\<lambda>_.
            bind_result (deref h (c_right lc)) (\<lambda>lrc.
              mk3_h ndebug h (c_left lc) (c_value lc) (c_left lrc) (c_value lrc) (c_right lrc) v r))
          else mk2_h ndebug h (c_left lc) (c_value lc) (c_right lc) v r True)))
      else
        bind_result (assert ndebug (balance = 2)) (\<lambda>_.
        bind_result (assert ndebug (r \<noteq> None)) (\<lambda>_.
        bind_result (deref h r) (\<lambda>rc.
        bind_result (BalanceOf_h h (c_left rc) (c_right rc)) (\<lambda>rb.
          if rb = - 1 then
            bind_result (assert ndebug (c_left rc \<noteq> None)) (\<lambda>_.
            bind_result (deref h (c_left rc)) (\<lambda>rlc.
              mk3_h ndebug h l v (c_left rlc) (c_value rlc) (c_right rlc) (c_value rc) (c_right rc)))
          else mk2_h ndebug h l v (c_left rc) (c_value rc) (c_right rc) False)))))"

definition MakeAndRebalanceSlowPath_h ::
  "nat \<Rightarrow> bool \<Rightarrow> heap \<Rightarrow> addr option \<Rightarrow> string \<Rightarrow> addr option \<Rightarrow> int \<Rightarrow> (heap \<times> addr) result" where
  "MakeAndRebalanceSlowPath_h fuel ndebug h l v r balance =
     bind_result (IncRef h l) (\<lambda>h1.
     bind_result (IncRef h1 r) (\<lambda>h2.
     bind_result (rebalance_h ndebug h2 l v r balance) (\<lambda>(h3, res).
     bind_result (DecRef fuel h3 r) (\<lambda>h4.
     bind_result (DecRef fuel h4 l) (\<lambda>h5.
       Inr (h5, res))))))"

definition MakeAndRebalance_h ::
  "nat \<Rightarrow> bool \<Rightarrow> heap \<Rightarrow> addr option \<Rightarrow> string \<Rightarrow> addr option \<Rightarrow> (heap \<times> addr) result" where
  "MakeAndRebalance_h fuel ndebug h l v r =
     bind_result (BalanceOf_h h l r) (\<lambda>balance.
       if fast_path balance then new_node_h ndebug h l v r
       else MakeAndRebalanceSlowPath_h fuel ndebug h l v r balance)"

text \<open>
  \<open>AVLTree::Insert\<close> with \<open>R::Rec\<close>. \<open>root.emplace(p)\<close> destroys the handle that \<open>root\<close> holds
  (a \<open>DecRef\<close>) and then constructs the new one (an \<open>IncRef\<close>); its argument is evaluated
  first. \<open>InsertAll_h\<close> is the driver's loop.
\<close>

fun Rec_h :: "nat \<Rightarrow> bool \<Rightarrow> heap \<Rightarrow> addr option \<Rightarrow> string \<Rightarrow> (heap \<times> addr) result" where
  "Rec_h fuel ndebug h None x = Inr (new_leaf_h h x)"
| "Rec_h 0 ndebug h (Some a) x = Inl OutOfFuel"
| "Rec_h (Suc fuel) ndebug h (Some a) x =
     bind_result (deref h (Some a)) (\<lambda>c.
       if x < c_value c
       then bind_result (Rec_h fuel ndebug h (c_left c) x) (\<lambda>(h1, l').
              MakeAndRebalance_h fuel ndebug h1 (Some l') (c_value c) (c_right c))
       else bind_result (Rec_h fuel ndebug h (c_right c) x) (\<lambda>(h1, r').
              MakeAndRebalance_h fuel ndebug h1 (c_left c) (c_value c) (Some r')))"

type_synonym AVLTree_h = "addr option option"

definition Insert_h :: "nat \<Rightarrow> bool \<Rightarrow> heap \<Rightarrow> AVLTree_h \<Rightarrow> string \<Rightarrow> (heap \<times> AVLTree_h) result" where
  "Insert_h fuel ndebug h tree x =
     (case tree of
        None \<Rightarrow>
          (let (h1, a) = new_leaf_h h x in
           bind_result (IncRef h1 (Some a)) (\<lambda>h2. Inr (h2, Some (Some a))))
      | Some p \<Rightarrow>
          bind_result (Rec_h fuel ndebug h p x) (\<lambda>(h1, a).
          bind_result (DecRef fuel h1 p) (\<lambda>h2.
          bind_result (IncRef h2 (Some a)) (\<lambda>h3.
            Inr (h3, Some (Some a))))))"

fun InsertAll_h ::
  "nat \<Rightarrow> bool \<Rightarrow> heap \<Rightarrow> AVLTree_h \<Rightarrow> string list \<Rightarrow> (heap \<times> AVLTree_h) result" where
  "InsertAll_h fuel ndebug h tree [] = Inr (h, tree)"
| "InsertAll_h fuel ndebug h tree (k # ks) =
     bind_result (Insert_h fuel ndebug h tree k) (\<lambda>(h', tree'). InsertAll_h fuel ndebug h' tree' ks)"

text \<open>
  \<open>AVLTree::LowerBound\<close>, returning the node pointer.
\<close>

fun LowerBound_loop_h :: "nat \<Rightarrow> heap \<Rightarrow> addr option \<Rightarrow> addr option \<Rightarrow> string \<Rightarrow> addr option result" where
  "LowerBound_loop_h fuel h None best str = Inr best"
| "LowerBound_loop_h 0 h (Some a) best str = Inl OutOfFuel"
| "LowerBound_loop_h (Suc fuel) h (Some a) best str =
     bind_result (deref h (Some a)) (\<lambda>c.
       if c_value c < str then LowerBound_loop_h fuel h (c_right c) best str
       else LowerBound_loop_h fuel h (c_left c) (Some a) str)"

definition LowerBound_h :: "nat \<Rightarrow> heap \<Rightarrow> AVLTree_h \<Rightarrow> string \<Rightarrow> addr option result" where
  "LowerBound_h fuel h tree str =
     (case tree of
        None \<Rightarrow> Inr None
      | Some node \<Rightarrow>
          bind_result (deref h node) (\<lambda>c.
            LowerBound_loop_h fuel h node (if c_value c \<ge> str then node else None) str))"

subsection \<open>Specification vocabulary for the heap\<close>

text \<open>
  \<open>repr h p t\<close>: the pointer \<open>p\<close> leads, in the heap \<open>h\<close>, to the tree \<open>t\<close> (heights and
  keys as stored). \<open>repr_tree\<close> is the same for a tree handle, \<open>key_at\<close> the key a returned
  node pointer holds, \<open>tree_roots\<close> the pointer a tree handle owns.
\<close>

fun repr :: "heap \<Rightarrow> addr option \<Rightarrow> unit node \<Rightarrow> bool" where
  "repr h p Null = (p = None)"
| "repr h p (Node u ht l v r) =
     (case p of
        None \<Rightarrow> False
      | Some a \<Rightarrow>
          (case lookup h a of
             None \<Rightarrow> False
           | Some c \<Rightarrow> c_height c = ht \<and> c_value c = v \<and> repr h (c_left c) l \<and> repr h (c_right c) r))"

definition repr_tree :: "heap \<Rightarrow> AVLTree_h \<Rightarrow> unit AVLTree \<Rightarrow> bool" where
  "repr_tree h tree T =
     (case tree of
        None \<Rightarrow> T = None
      | Some p \<Rightarrow> (case T of None \<Rightarrow> False | Some t \<Rightarrow> repr h p t))"

definition tree_height :: "'r AVLTree \<Rightarrow> nat" where
  "tree_height T = (case T of None \<Rightarrow> 0 | Some t \<Rightarrow> shape_height t)"

definition key_at :: "heap \<Rightarrow> addr option \<Rightarrow> string option" where
  "key_at h p = (case p of None \<Rightarrow> None | Some a \<Rightarrow> map_option c_value (lookup h a))"

definition ptr_mset :: "addr option \<Rightarrow> addr multiset" where
  "ptr_mset p = (case p of None \<Rightarrow> {#} | Some a \<Rightarrow> {#a#})"

definition tree_roots :: "AVLTree_h \<Rightarrow> addr multiset" where
  "tree_roots tree = (case tree of None \<Rightarrow> {#} | Some p \<Rightarrow> ptr_mset p)"

text \<open>
  The reference-counting invariant \<open>rc_inv h D R\<close>. \<open>R\<close> is the multiset of the pointers
  held by live handles outside the heap (root handles, holders); \<open>D\<close> is the set of nodes
  whose destructor is running, empty between calls. A node is alive when it is allocated
  and not in \<open>D\<close>. The invariant says that the child pointers of alive nodes and the
  pointers of \<open>R\<close> lead to alive nodes, and that the refcount of every alive node is the
  number of references to it: child links from alive nodes (\<open>indeg\<close>) plus handles in
  \<open>R\<close>.
\<close>

fun cell_indeg :: "cell option \<Rightarrow> addr \<Rightarrow> nat" where
  "cell_indeg None b = 0"
| "cell_indeg (Some c) b =
     (if c_left c = Some b then 1 else 0) + (if c_right c = Some b then 1 else 0)"

definition indeg :: "heap \<Rightarrow> addr set \<Rightarrow> addr \<Rightarrow> nat" where
  "indeg h D b = (\<Sum>i \<in> {i. i < length h \<and> i \<notin> D}. cell_indeg (h ! i) b)"

definition alive :: "heap \<Rightarrow> addr set \<Rightarrow> addr \<Rightarrow> bool" where
  "alive h D a = (a \<notin> D \<and> lookup h a \<noteq> None)"

definition ptr_ok :: "heap \<Rightarrow> addr set \<Rightarrow> addr option \<Rightarrow> bool" where
  "ptr_ok h D p = (case p of None \<Rightarrow> True | Some a \<Rightarrow> alive h D a)"

definition rc_inv :: "heap \<Rightarrow> addr set \<Rightarrow> addr multiset \<Rightarrow> bool" where
  "rc_inv h D R =
     ((\<forall>a c. alive h D a \<and> lookup h a = Some c \<longrightarrow>
          ptr_ok h D (c_left c) \<and> ptr_ok h D (c_right c)
          \<and> c_refcount c = int (indeg h D a + count R a))
      \<and> (\<forall>a \<in># R. alive h D a))"

definition alive_count :: "heap \<Rightarrow> addr set \<Rightarrow> nat" where
  "alive_count h D = card {a. alive h D a}"

text \<open>
  What a call may change: surviving nodes keep their fields (\<open>struct_frame\<close>), and a call
  that only releases handles leaves nodes with refcount 0 alone (\<open>heap_frame\<close>).
  \<open>built\<close> and \<open>built0\<close> describe the heap after a node for the tree \<open>t\<close> has been built at
  address \<open>a\<close>, still unowned. \<open>reach h R a\<close>: the node \<open>a\<close> can be reached from a handle of
  \<open>R\<close>.
\<close>

definition same_fields :: "cell \<Rightarrow> cell \<Rightarrow> bool" where
  "same_fields c c' =
     (c_height c' = c_height c \<and> c_left c' = c_left c \<and> c_right c' = c_right c
      \<and> c_value c' = c_value c)"

definition struct_frame :: "heap \<Rightarrow> heap \<Rightarrow> bool" where
  "struct_frame h h' =
     (length h \<le> length h'
      \<and> (\<forall>b c'. b < length h \<and> lookup h' b = Some c' \<longrightarrow> (\<exists>c. lookup h b = Some c \<and> same_fields c c')))"

definition heap_frame :: "heap \<Rightarrow> heap \<Rightarrow> bool" where
  "heap_frame h h' =
     (length h \<le> length h'
      \<and> (\<forall>b c'. b < length h \<and> lookup h' b = Some c' \<longrightarrow> (\<exists>c. lookup h b = Some c \<and> same_fields c c'))
      \<and> (\<forall>b c. lookup h b = Some c \<and> c_refcount c = 0 \<longrightarrow> lookup h' b = Some c))"

definition fresh_node :: "heap \<Rightarrow> addr \<Rightarrow> bool" where
  "fresh_node h a = (\<exists>c. lookup h a = Some c \<and> c_refcount c = 0)"

definition built :: "heap \<Rightarrow> addr multiset \<Rightarrow> heap \<Rightarrow> addr \<Rightarrow> unit node \<Rightarrow> bool" where
  "built h R h' a t =
     (rc_inv h' {} R \<and> struct_frame h h' \<and> repr h' (Some a) t \<and> fresh_node h' a
      \<and> (\<forall>q. ptr_ok h {} q \<longrightarrow> ptr_ok h' {} q))"

definition built0 :: "heap \<Rightarrow> addr multiset \<Rightarrow> heap \<Rightarrow> addr \<Rightarrow> unit node \<Rightarrow> bool" where
  "built0 h R h' a t =
     (rc_inv h' {} R \<and> struct_frame h h' \<and> repr h' (Some a) t \<and> fresh_node h' a)"

inductive reach :: "heap \<Rightarrow> addr multiset \<Rightarrow> addr \<Rightarrow> bool" for h R where
  reach_root: "a \<in># R \<Longrightarrow> reach h R a"
| reach_left: "reach h R b \<Longrightarrow> lookup h b = Some c \<Longrightarrow> c_left c = Some a \<Longrightarrow> reach h R a"
| reach_right: "reach h R b \<Longrightarrow> lookup h b = Some c \<Longrightarrow> c_right c = Some a \<Longrightarrow> reach h R a"

section \<open>Crit-bit tree (critbit-tree.h)\<close>

text \<open>
  \<open>NodeVariant\<close>: a link holds either an \<open>ExternalNode\<close> (a leaf with its key) or an
  \<open>InternalNode\<close> with its crit-bit index and the two children \<open>children_[0]\<close> and
  \<open>children_[1]\<close>. The tree is \<open>std::optional<NodeVariant> root_\<close>. Indices are \<open>size_t\<close>
  values far below \<open>2^64\<close>, so they are natural numbers here.
\<close>

datatype cb_node =
  ExternalNode (leaf_key: string)
  | InternalNode (critbit_index: nat) (child0: cb_node) (child1: cb_node)

type_synonym CritBitTree = "cb_node option"

text \<open>\<open>static_cast<unsigned char>(sv[i])\<close>.\<close>

definition byte_at :: "string \<Rightarrow> nat \<Rightarrow> 8 word" where
  "byte_at sv i = of_char (sv ! i)"

text \<open>\<open>detail::get_bit\<close>: bit 0 is the most significant bit of the first byte; bits beyond the string read as 0.\<close>

definition get_bit :: "string \<Rightarrow> nat \<Rightarrow> nat" where
  "get_bit sv bit_index =
     (let byte_index = bit_index div 8 in
      if byte_index \<ge> length sv then 0
      else let bit_offset = 7 - (bit_index mod 8) in
        unat (drop_bit bit_offset (byte_at sv byte_index) AND 1))"

text \<open>
  The index at which \<open>std::mismatch\<close> stops on the first \<open>min(len1, len2)\<close> bytes: the length
  of the common prefix.
\<close>

fun mismatch :: "string \<Rightarrow> string \<Rightarrow> nat" where
  "mismatch (a # as) (b # bs) = (if a = b then Suc (mismatch as bs) else 0)"
| "mismatch _ _ = 0"

text \<open>
  \<open>std::countl_zero\<close> on an \<open>unsigned char\<close> (the branch taken with C++20, which the header
  needs for \<open><bit>\<close>): the number of zero bits above the highest set bit, 8 for the byte 0.
\<close>

definition countl_zero :: "8 word \<Rightarrow> nat" where
  "countl_zero w = length (takeWhile (\<lambda>i. \<not> bit w i) [7, 6, 5, 4, 3, 2, 1, 0])"

definition find_crit_bit :: "string \<Rightarrow> string \<Rightarrow> nat option" where
  "find_crit_bit s1 s2 =
     (let len1 = length s1; len2 = length s2; min_len_bytes = min len1 len2;
          p = mismatch s1 s2 in
      if p = min_len_bytes then
        if len1 = len2 then None
        else
          let diff_byte_index = min_len_bytes;
              c1 = (if len1 > len2 then byte_at s1 diff_byte_index else 0);
              c2 = (if len1 > len2 then 0 else byte_at s2 diff_byte_index)
          in Some (diff_byte_index * 8 + countl_zero (c1 XOR c2))
      else
        let diff_byte_index = p;
            c1 = byte_at s1 diff_byte_index;
            c2 = byte_at s2 diff_byte_index
        in Some (diff_byte_index * 8 + countl_zero (c1 XOR c2)))"

text \<open>
  \<open>CritBitTree::Insert\<close>. A \<open>PathElement\<close> records an internal node on the way down (here its
  crit-bit index, which is all the walk back up reads) and the direction taken from it.
  \<open>descend\<close> is the loop of step 2 with the leaf key of step 3; \<open>walk_up\<close> is the loop of step
  5 over the path from its deep end, giving the number of path elements above the insertion
  point (0 for the root slot); \<open>replace_at\<close> follows the recorded directions to that slot and
  puts the new internal node of step 6 there.
\<close>

type_synonym PathElement = "nat \<times> nat"

fun descend :: "cb_node \<Rightarrow> string \<Rightarrow> PathElement list \<Rightarrow> PathElement list \<times> string" where
  "descend (ExternalNode k) key path = (path, k)"
| "descend (InternalNode c n0 n1) key path =
     (let direction = get_bit key c in
      descend (if direction = 0 then n0 else n1) key (path @ [(c, direction)]))"

fun walk_up :: "PathElement list \<Rightarrow> nat \<Rightarrow> nat" where
  "walk_up [] new_critbit_index = 0"
| "walk_up ((c, d) # rest) new_critbit_index =
     (if c < new_critbit_index then Suc (length rest) else walk_up rest new_critbit_index)"

fun replace_at :: "cb_node \<Rightarrow> PathElement list \<Rightarrow> nat \<Rightarrow> (cb_node \<Rightarrow> cb_node) \<Rightarrow> cb_node" where
  "replace_at n path 0 f = f n"
| "replace_at (InternalNode c n0 n1) ((c', d) # path) (Suc k) f =
     (if d = 0 then InternalNode c (replace_at n0 path k f) n1
      else InternalNode c n0 (replace_at n1 path k f))"
| "replace_at n path (Suc k) f = n"

definition new_internal_node :: "nat \<Rightarrow> nat \<Rightarrow> string \<Rightarrow> cb_node \<Rightarrow> cb_node" where
  "new_internal_node new_critbit_index new_key_bit key existing =
     (if new_key_bit = 0 then InternalNode new_critbit_index (ExternalNode key) existing
      else InternalNode new_critbit_index existing (ExternalNode key))"

definition CritBit_Insert :: "CritBitTree \<Rightarrow> string \<Rightarrow> CritBitTree" where
  "CritBit_Insert tree key =
     (case tree of
        None \<Rightarrow> Some (ExternalNode key)
      | Some n \<Rightarrow>
          let (path, existing_key) = descend n key [] in
          case find_crit_bit key existing_key of
            None \<Rightarrow> Some n
          | Some new_critbit_index \<Rightarrow>
              let new_key_bit = get_bit key new_critbit_index;
                  depth = walk_up (rev path) new_critbit_index
              in Some (replace_at n path depth (new_internal_node new_critbit_index new_key_bit key)))"

text \<open>
  The driver's loop (\<open>main\<close> in \<open>suffix-critbit-tree.cc\<close>): one \<open>Insert\<close> per key, in order.
\<close>

fun CritBit_InsertAll :: "CritBitTree \<Rightarrow> string list \<Rightarrow> CritBitTree" where
  "CritBit_InsertAll tree [] = tree"
| "CritBit_InsertAll tree (k # ks) = CritBit_InsertAll (CritBit_Insert tree k) ks"

subsection \<open>Specification vocabulary for the crit-bit tree\<close>

text \<open>
  The header assumes that inserted keys contain no null byte (\<open>@invariant Assumes inserted keys
  do not contain null bytes\<close>).
\<close>

definition null_free :: "string \<Rightarrow> bool" where
  "null_free k = (CHR 0x00 \<notin> set k)"

text \<open>The byte of a key at an index, 0 beyond its end: the padding that \<open>get_bit\<close> reads.\<close>

definition ebyte :: "string \<Rightarrow> nat \<Rightarrow> 8 word" where
  "ebyte k j = (if j < length k then byte_at k j else 0)"

text \<open>The keys stored in the leaves, and the crit-bit indices of the internal nodes.\<close>

fun cb_keys :: "cb_node \<Rightarrow> string set" where
  "cb_keys (ExternalNode k) = {k}"
| "cb_keys (InternalNode c n0 n1) = cb_keys n0 \<union> cb_keys n1"

fun crit_bits :: "cb_node \<Rightarrow> nat set" where
  "crit_bits (ExternalNode k) = {}"
| "crit_bits (InternalNode c n0 n1) = insert c (crit_bits n0 \<union> crit_bits n1)"

text \<open>
  The structural invariant of the header (\<open>Internal node crit-bit indices correctly partition
  the key space based on the first differing bit between their subtrees\<close>): at an internal node
  with index \<open>c\<close> all keys below it agree on the bits before \<open>c\<close>, those under \<open>children_[0]\<close>
  have bit \<open>c\<close> clear and those under \<open>children_[1]\<close> have it set, and the indices further down
  are larger.
\<close>

definition agree_below :: "nat \<Rightarrow> string set \<Rightarrow> bool" where
  "agree_below c S = (\<forall>k \<in> S. \<forall>k' \<in> S. \<forall>i \<in> {0..<c}. get_bit k i = get_bit k' i)"

fun cb_inv :: "cb_node \<Rightarrow> bool" where
  "cb_inv (ExternalNode k) = True"
| "cb_inv (InternalNode c n0 n1) =
     (cb_inv n0 \<and> cb_inv n1
      \<and> (\<forall>k \<in> cb_keys n0. get_bit k c = 0)
      \<and> (\<forall>k \<in> cb_keys n1. get_bit k c = 1)
      \<and> agree_below c (cb_keys n0 \<union> cb_keys n1)
      \<and> (\<forall>x \<in> crit_bits n0 \<union> crit_bits n1. c < x))"

definition tree_keys :: "CritBitTree \<Rightarrow> string set" where
  "tree_keys t = (case t of None \<Rightarrow> {} | Some n \<Rightarrow> cb_keys n)"

definition tree_ok :: "CritBitTree \<Rightarrow> bool" where
  "tree_ok t = (case t of None \<Rightarrow> True | Some n \<Rightarrow> cb_inv n \<and> (\<forall>k \<in> cb_keys n. null_free k))"

text \<open>
  The insertion point found from the root: go down while the crit-bit index of the node is
  smaller than the new one, and put the new internal node there. On a tree that satisfies the
  invariant this is the slot that \<open>Insert\<close> finds by walking its path back up.
\<close>

fun cb_ins :: "nat \<Rightarrow> string \<Rightarrow> cb_node \<Rightarrow> cb_node" where
  "cb_ins c key (ExternalNode e) = new_internal_node c (get_bit key c) key (ExternalNode e)"
| "cb_ins c key (InternalNode c' n0 n1) =
     (if c' < c then
        (if get_bit key c' = 0 then InternalNode c' (cb_ins c key n0) n1
         else InternalNode c' n0 (cb_ins c key n1))
      else new_internal_node c (get_bit key c) key (InternalNode c' n0 n1))"

section \<open>Basic facts\<close>

lemma int_and_3: "(b::int) AND 3 = b mod 4"
proof -
  have "b AND mask 2 = b mod 2 ^ 2" by (simp only: take_bit_eq_mask[symmetric] take_bit_eq_mod)
  then show ?thesis by (simp add: mask_eq_exp_minus_1)
qed

lemma fast_path_mod: "fast_path b \<longleftrightarrow> b mod 4 \<noteq> 2"
proof -
  have "(word_of_int b :: 32 word) AND 3 = word_of_int b AND word_of_int 3" by simp
  also have "\<dots> = word_of_int (b mod 4)" by (simp only: word_wi_log_defs int_and_3)
  finally have e: "(word_of_int b :: 32 word) AND 3 = word_of_int (b mod 4)" .
  have "((word_of_int (b mod 4) :: 32 word) = word_of_int 2) = (b mod 4 = 2)"
    by (rule word_of_int_inj) auto
  then show ?thesis unfolding fast_path_def e by simp
qed

lemma fast_path_small: "\<bar>b\<bar> \<le> 2 \<Longrightarrow> fast_path b \<longleftrightarrow> \<bar>b\<bar> < 2"
  unfolding fast_path_mod by presburger

lemma HeightOf_nonneg: "avl t \<Longrightarrow> 0 \<le> HeightOf t"
  by (induction t) auto

lemma HeightOf_pos: "avl t \<Longrightarrow> t \<noteq> Null \<Longrightarrow> 0 < HeightOf t"
  using HeightOf_nonneg by (cases t) fastforce+

lemma bind_result_simps [simp]:
  "bind_result (Inl e) f = Inl e" "bind_result (Inr x) f = f x"
  by (simp_all add: bind_result_def)

lemma assert_simps [simp]:
  "assert True c = Inr ()" "assert nd True = Inr ()" "assert False False = Inl AssertionFailed"
  by (simp_all add: assert_def)

lemma assert_ok: "nd \<or> c \<Longrightarrow> assert nd c = Inr ()"
  by (simp add: assert_def)

lemma new_node_ok:
  "nd \<or> \<bar>BalanceOf l r\<bar> < 2 \<Longrightarrow>
   new_node nd l v r = Inr (Node () (max (HeightOf l) (HeightOf r) + 1) l v r)"
  by (auto simp: new_node_def assert_ok)

lemma null_or_less_inorder: "\<forall>x\<in>set (inorder a). x < k \<Longrightarrow> null_or_less a k"
  by (cases a) auto

lemma null_or_greater_inorder: "\<forall>x\<in>set (inorder a). k < x \<Longrightarrow> null_or_greater a k"
  by (cases a) auto


lemma avl_Node_heights:
  "avl l \<Longrightarrow> avl r \<Longrightarrow> \<bar>HeightOf l - HeightOf r\<bar> \<le> 1 \<Longrightarrow>
   avl (Node rc (max (HeightOf l) (HeightOf r) + 1) l v r)"
  by simp

lemma slow_left:
  assumes "avl l" "avl r" "BalanceOf l r = - 2"
    and "nd \<or> sorted_wrt (<) (inorder l @ v # inorder r)"
  shows "\<exists>t. MakeAndRebalanceSlowPath nd l v r (- 2) = Inr t \<and> avl t
      \<and> inorder t = inorder l @ v # inorder r
      \<and> (HeightOf t = HeightOf l \<or> HeightOf t = HeightOf l + 1)"
proof -
  from assms(1,2,3) HeightOf_nonneg[of r] obtain rc hl ll lv lr where l: "l = Node rc hl ll lv lr"
    by (cases l) (auto simp: BalanceOf_def)
  have hl: "hl = HeightOf r + 2" "hl = max (HeightOf ll) (HeightOf lr) + 1"
     "\<bar>HeightOf ll - HeightOf lr\<bar> \<le> 1" "avl ll" "avl lr"
    using assms(1,3) by (auto simp: l BalanceOf_def)
  show ?thesis
  proof (cases "BalanceOf ll lr = 1")
    case True
    with hl assms(2) HeightOf_nonneg[of r] obtain rc' hlr lrl lrv lrr where lr: "lr = Node rc' hlr lrl lrv lrr"
      by (cases lr) (auto simp: BalanceOf_def)
    have h2: "HeightOf ll = HeightOf r" "max (HeightOf lrl) (HeightOf lrr) = HeightOf r"
      "\<bar>HeightOf lrl - HeightOf lrr\<bar> \<le> 1" "avl lrl" "avl lrr"
      using hl True by (auto simp: lr BalanceOf_def)
    have as: "assert nd (null_or_less ll lv) = Inr ()" "assert nd (lv < lrv) = Inr ()"
      "assert nd (null_or_less lrl lrv) = Inr ()" "assert nd (lrv < v) = Inr ()"
      "assert nd (null_or_less lrr v) = Inr ()" "assert nd (null_or_greater r v) = Inr ()"
      using assms(4) unfolding l lr
      by (auto simp: sorted_wrt_append intro!: assert_ok null_or_less_inorder null_or_greater_inorder)
    define ab where "ab = Node () (HeightOf r + 1) ll lv lrl"
    define cd where "cd = Node () (HeightOf r + 1) lrr v r"
    define t where "t = Node () (HeightOf r + 2) ab lrv cd"
    have n1: "new_node nd ll lv lrl = Inr ab"
      using h2 unfolding ab_def by (subst new_node_ok) (auto simp: BalanceOf_def)
    have n2: "new_node nd lrr v r = Inr cd"
      using h2 unfolding cd_def by (subst new_node_ok) (auto simp: BalanceOf_def)
    have n3: "new_node nd ab lrv cd = Inr t"
      unfolding t_def by (subst new_node_ok) (auto simp: BalanceOf_def ab_def cd_def)
    have "MakeAndRebalanceSlowPath nd l v r (- 2) = Inr t"
      using True by (simp add: MakeAndRebalanceSlowPath_def l lr mk3_def as n1 n2 n3)
    moreover have "avl t"
      using h2 hl assms(2) by (auto simp: t_def ab_def cd_def)
    moreover have "HeightOf t = HeightOf l" using hl by (simp add: l t_def)
    moreover have "inorder t = inorder l @ v # inorder r" by (simp add: l lr t_def ab_def cd_def)
    ultimately show ?thesis by blast
  next
    case False
    then have b: "HeightOf lr = HeightOf ll \<or> HeightOf lr = HeightOf ll - 1"
      using hl by (auto simp: BalanceOf_def)
    have as: "assert nd (null_or_less ll lv) = Inr ()" "assert nd (lv < v) = Inr ()"
      "assert nd (null_or_less lr v) = Inr ()" "assert nd (null_or_greater r v) = Inr ()"
      using assms(4) unfolding l
      by (auto simp: sorted_wrt_append intro!: assert_ok null_or_less_inorder null_or_greater_inorder)
    define bc where "bc = Node () (HeightOf lr + 1) lr v r"
    define t where "t = Node () (HeightOf lr + 2) ll lv bc"
    have n1: "new_node nd lr v r = Inr bc"
      using hl b unfolding bc_def by (subst new_node_ok) (auto simp: BalanceOf_def)
    have n2: "new_node nd ll lv bc = Inr t"
      using hl b unfolding t_def by (subst new_node_ok) (auto simp: BalanceOf_def bc_def)
    have "MakeAndRebalanceSlowPath nd l v r (- 2) = Inr t"
      using False by (simp add: MakeAndRebalanceSlowPath_def l mk2_def as n1 n2)
    moreover have "avl t"
      using hl b assms(2) by (auto simp: t_def bc_def)
    moreover have "HeightOf t = HeightOf l \<or> HeightOf t = HeightOf l + 1"
      using hl b by (auto simp add: l t_def)
    moreover have "inorder t = inorder l @ v # inorder r" by (simp add: l t_def bc_def)
    ultimately show ?thesis by blast
  qed
qed


lemma slow_right:
  assumes "avl l" "avl r" "BalanceOf l r = 2"
    and "nd \<or> sorted_wrt (<) (inorder l @ v # inorder r)"
  shows "\<exists>t. MakeAndRebalanceSlowPath nd l v r 2 = Inr t \<and> avl t
      \<and> inorder t = inorder l @ v # inorder r
      \<and> (HeightOf t = HeightOf r \<or> HeightOf t = HeightOf r + 1)"
proof -
  from assms(1,2,3) HeightOf_nonneg[of l] obtain rc hr rl rv rr where r: "r = Node rc hr rl rv rr"
    by (cases r) (auto simp: BalanceOf_def)
  have hr: "hr = HeightOf l + 2" "hr = max (HeightOf rl) (HeightOf rr) + 1"
     "\<bar>HeightOf rl - HeightOf rr\<bar> \<le> 1" "avl rl" "avl rr"
    using assms(2,3) by (auto simp: r BalanceOf_def)
  show ?thesis
  proof (cases "BalanceOf rl rr = - 1")
    case True
    with hr assms(1) HeightOf_nonneg[of l] obtain rc' hrl rll rlv rlr where rl: "rl = Node rc' hrl rll rlv rlr"
      by (cases rl) (auto simp: BalanceOf_def)
    have h2: "HeightOf rr = HeightOf l" "max (HeightOf rll) (HeightOf rlr) = HeightOf l"
      "\<bar>HeightOf rll - HeightOf rlr\<bar> \<le> 1" "avl rll" "avl rlr"
      using hr True by (auto simp: rl BalanceOf_def)
    have as: "assert nd (null_or_less l v) = Inr ()" "assert nd (v < rlv) = Inr ()"
      "assert nd (null_or_less rll rlv) = Inr ()" "assert nd (rlv < rv) = Inr ()"
      "assert nd (null_or_less rlr rv) = Inr ()" "assert nd (null_or_greater rr rv) = Inr ()"
      using assms(4) unfolding r rl
      by (auto simp: sorted_wrt_append intro!: assert_ok null_or_less_inorder null_or_greater_inorder)
    define ab where "ab = Node () (HeightOf l + 1) l v rll"
    define cd where "cd = Node () (HeightOf l + 1) rlr rv rr"
    define t where "t = Node () (HeightOf l + 2) ab rlv cd"
    have n1: "new_node nd l v rll = Inr ab"
      using h2 unfolding ab_def by (subst new_node_ok) (auto simp: BalanceOf_def)
    have n2: "new_node nd rlr rv rr = Inr cd"
      using h2 unfolding cd_def by (subst new_node_ok) (auto simp: BalanceOf_def)
    have n3: "new_node nd ab rlv cd = Inr t"
      unfolding t_def by (subst new_node_ok) (auto simp: BalanceOf_def ab_def cd_def)
    have "MakeAndRebalanceSlowPath nd l v r 2 = Inr t"
      using True by (simp add: MakeAndRebalanceSlowPath_def r rl mk3_def as n1 n2 n3)
    moreover have "avl t"
      using h2 hr assms(1) by (auto simp: t_def ab_def cd_def)
    moreover have "HeightOf t = HeightOf r" using hr by (simp add: r t_def)
    moreover have "inorder t = inorder l @ v # inorder r" by (simp add: r rl t_def ab_def cd_def)
    ultimately show ?thesis by blast
  next
    case False
    then have b: "HeightOf rl = HeightOf rr \<or> HeightOf rl = HeightOf rr - 1"
      using hr by (auto simp: BalanceOf_def)
    have as: "assert nd (null_or_less l v) = Inr ()" "assert nd (v < rv) = Inr ()"
      "assert nd (null_or_less rl rv) = Inr ()" "assert nd (null_or_greater rr rv) = Inr ()"
      using assms(4) unfolding r
      by (auto simp: sorted_wrt_append intro!: assert_ok null_or_less_inorder null_or_greater_inorder)
    define ab where "ab = Node () (HeightOf rl + 1) l v rl"
    define t where "t = Node () (HeightOf rl + 2) ab rv rr"
    have n1: "new_node nd l v rl = Inr ab"
      using hr b unfolding ab_def by (subst new_node_ok) (auto simp: BalanceOf_def)
    have n2: "new_node nd ab rv rr = Inr t"
      using hr b unfolding t_def by (subst new_node_ok) (auto simp: BalanceOf_def ab_def)
    have "MakeAndRebalanceSlowPath nd l v r 2 = Inr t"
      using False by (simp add: MakeAndRebalanceSlowPath_def r mk2_def as n1 n2)
    moreover have "avl t"
      using hr b assms(1) by (auto simp: t_def ab_def)
    moreover have "HeightOf t = HeightOf r \<or> HeightOf t = HeightOf r + 1"
      using hr b by (auto simp add: r t_def)
    moreover have "inorder t = inorder l @ v # inorder r" by (simp add: r t_def ab_def)
    ultimately show ?thesis by blast
  qed
qed

lemma MakeAndRebalance_avl:
  assumes "avl l" "avl r" "\<bar>BalanceOf l r\<bar> \<le> 2"
    and "nd \<or> sorted_wrt (<) (inorder l @ v # inorder r)"
  shows "\<exists>t. MakeAndRebalance nd l v r = Inr t \<and> avl t \<and> t \<noteq> Null
      \<and> inorder t = inorder l @ v # inorder r
      \<and> (if \<bar>BalanceOf l r\<bar> < 2 then HeightOf t = max (HeightOf l) (HeightOf r) + 1
         else HeightOf t = max (HeightOf l) (HeightOf r) \<or> HeightOf t = max (HeightOf l) (HeightOf r) + 1)"
proof (cases "\<bar>BalanceOf l r\<bar> < 2")
  case True
  then have "MakeAndRebalance nd l v r = Inr (Node () (max (HeightOf l) (HeightOf r) + 1) l v r)"
    using assms(3) by (simp add: MakeAndRebalance_def fast_path_small new_node_ok)
  then show ?thesis using True assms(1,2) by (auto simp: BalanceOf_def)
next
  case False
  then consider "BalanceOf l r = - 2" | "BalanceOf l r = 2" using assms(3) by linarith
  then show ?thesis
  proof cases
    case 1
    from slow_left[OF assms(1,2) 1 assms(4)] obtain t where
      t: "MakeAndRebalanceSlowPath nd l v r (- 2) = Inr t" "avl t"
        "inorder t = inorder l @ v # inorder r" "HeightOf t = HeightOf l \<or> HeightOf t = HeightOf l + 1"
      by blast
    have "MakeAndRebalance nd l v r = Inr t"
      using 1 t(1) by (simp add: MakeAndRebalance_def fast_path_mod)
    moreover have "t \<noteq> Null" using t(3) by auto
    moreover have "max (HeightOf l) (HeightOf r) = HeightOf l" using 1 by (simp add: BalanceOf_def)
    ultimately show ?thesis using t False by auto
  next
    case 2
    from slow_right[OF assms(1,2) 2 assms(4)] obtain t where
      t: "MakeAndRebalanceSlowPath nd l v r 2 = Inr t" "avl t"
        "inorder t = inorder l @ v # inorder r" "HeightOf t = HeightOf r \<or> HeightOf t = HeightOf r + 1"
      by blast
    have "MakeAndRebalance nd l v r = Inr t"
      using 2 t(1) by (simp add: MakeAndRebalance_def fast_path_mod)
    moreover have "t \<noteq> Null" using t(3) by auto
    moreover have "max (HeightOf l) (HeightOf r) = HeightOf r" using 2 by (simp add: BalanceOf_def)
    ultimately show ?thesis using t False by auto
  qed
qed


lemma strict_sorted_insert:
  assumes "sorted_wrt (<) (xs :: string list)" "x \<notin> set xs" "sorted ys" "mset ys = add_mset x (mset xs)"
  shows "sorted_wrt (<) ys"
proof -
  have "distinct (x # xs)" using assms(1,2) by (simp add: strict_sorted_iff)
  moreover have "mset ys = mset (x # xs)" using assms(4) by simp
  ultimately have "distinct ys" by (metis mset_eq_imp_distinct_iff)
  then show ?thesis using assms(3) by (simp add: strict_sorted_iff)
qed

lemma Rec_avl:
  assumes "avl t" "nd \<or> (sorted_wrt (<) (inorder t) \<and> x \<notin> set (inorder t))"
  shows "\<exists>t'. Rec nd t x = Inr t' \<and> avl t' \<and> t' \<noteq> Null
      \<and> mset (inorder t') = add_mset x (mset (inorder t))
      \<and> (sorted (inorder t) \<longrightarrow> sorted (inorder t'))
      \<and> (HeightOf t' = HeightOf t \<or> HeightOf t' = HeightOf t + 1)"
  using assms
proof (induction t)
  case Null
  then show ?case by (simp add: new_leaf_def)
next
  case (Node rc h l v r)
  have avl: "avl l" "avl r" "\<bar>HeightOf l - HeightOf r\<bar> \<le> 1" "h = max (HeightOf l) (HeightOf r) + 1"
    using Node.prems(1) by auto
  have strict: "nd \<or> (sorted_wrt (<) (inorder l) \<and> x \<notin> set (inorder l))"
      "nd \<or> (sorted_wrt (<) (inorder r) \<and> x \<notin> set (inorder r))"
    using Node.prems(2) by (auto simp: sorted_wrt_append)
  show ?case
  proof (cases "x < v")
    case True
    from Node.IH(1)[OF avl(1) strict(1)] obtain l' where
      l': "Rec nd l x = Inr l'" "avl l'" "mset (inorder l') = add_mset x (mset (inorder l))"
        "sorted (inorder l) \<longrightarrow> sorted (inorder l')"
        "HeightOf l' = HeightOf l \<or> HeightOf l' = HeightOf l + 1"
      by blast
    have set_l': "set (inorder l') = insert x (set (inorder l))"
      using l'(3) by (metis set_mset_add_mset_insert set_mset_mset)
    have b: "\<bar>BalanceOf l' r\<bar> \<le> 2" using avl(3) l'(5) by (auto simp: BalanceOf_def)
    have s: "nd \<or> sorted_wrt (<) (inorder l' @ v # inorder r)"
    proof (cases nd)
      case False
      then have st: "sorted_wrt (<) (inorder l @ v # inorder r)" "x \<notin> set (inorder l)"
        using Node.prems(2) by auto
      then have "sorted (inorder l')" using l'(4) by (simp add: sorted_wrt_append strict_sorted_iff)
      then have "sorted_wrt (<) (inorder l')"
        using strict_sorted_insert[OF _ st(2) _ l'(3)] st(1) by (simp add: sorted_wrt_append)
      then show ?thesis using st(1) True by (auto simp: sorted_wrt_append set_l')
    qed simp
    from MakeAndRebalance_avl[OF l'(2) avl(2) b s] obtain t' where
      t': "MakeAndRebalance nd l' v r = Inr t'" "avl t'" "t' \<noteq> Null"
        "inorder t' = inorder l' @ v # inorder r"
        "if \<bar>BalanceOf l' r\<bar> < 2 then HeightOf t' = max (HeightOf l') (HeightOf r) + 1
         else HeightOf t' = max (HeightOf l') (HeightOf r) \<or> HeightOf t' = max (HeightOf l') (HeightOf r) + 1"
      by blast
    have "Rec nd (Node rc h l v r) x = Inr t'" using True l'(1) t'(1) by simp
    moreover have "mset (inorder t') = add_mset x (mset (inorder (Node rc h l v r)))"
      using t'(4) l'(3) by simp
    moreover have "sorted (inorder (Node rc h l v r)) \<longrightarrow> sorted (inorder t')"
      using t'(4) l'(4) True by (auto simp: sorted_append set_l')
    moreover have "HeightOf t' = h \<or> HeightOf t' = h + 1"
      using t'(5) avl(3,4) l'(5) by (auto simp: BalanceOf_def split: if_splits)
    ultimately show ?thesis using t'(2,3) by auto
  next
    case False
    from Node.IH(2)[OF avl(2) strict(2)] obtain r' where
      r': "Rec nd r x = Inr r'" "avl r'" "mset (inorder r') = add_mset x (mset (inorder r))"
        "sorted (inorder r) \<longrightarrow> sorted (inorder r')"
        "HeightOf r' = HeightOf r \<or> HeightOf r' = HeightOf r + 1"
      by blast
    have set_r': "set (inorder r') = insert x (set (inorder r))"
      using r'(3) by (metis set_mset_add_mset_insert set_mset_mset)
    have b: "\<bar>BalanceOf l r'\<bar> \<le> 2" using avl(3) r'(5) by (auto simp: BalanceOf_def)
    have s: "nd \<or> sorted_wrt (<) (inorder l @ v # inorder r')"
    proof (cases nd)
      case nd: False
      then have st: "sorted_wrt (<) (inorder l @ v # inorder r)" "x \<notin> set (inorder r)" "x \<noteq> v"
        using Node.prems(2) by auto
      then have "sorted (inorder r')" using r'(4) by (simp add: sorted_wrt_append strict_sorted_iff)
      then have "sorted_wrt (<) (inorder r')"
        using strict_sorted_insert[OF _ st(2) _ r'(3)] st(1) by (simp add: sorted_wrt_append)
      moreover have "v < x" using False st(3) by simp
      ultimately show ?thesis using st(1) by (auto simp: sorted_wrt_append set_r')
    qed simp
    from MakeAndRebalance_avl[OF avl(1) r'(2) b s] obtain t' where
      t': "MakeAndRebalance nd l v r' = Inr t'" "avl t'" "t' \<noteq> Null"
        "inorder t' = inorder l @ v # inorder r'"
        "if \<bar>BalanceOf l r'\<bar> < 2 then HeightOf t' = max (HeightOf l) (HeightOf r') + 1
         else HeightOf t' = max (HeightOf l) (HeightOf r') \<or> HeightOf t' = max (HeightOf l) (HeightOf r') + 1"
      by blast
    have "Rec nd (Node rc h l v r) x = Inr t'" using False r'(1) t'(1) by simp
    moreover have "mset (inorder t') = add_mset x (mset (inorder (Node rc h l v r)))"
      using t'(4) r'(3) by simp
    moreover have "sorted (inorder (Node rc h l v r)) \<longrightarrow> sorted (inorder t')"
      using t'(4) r'(4) False by (auto simp: sorted_append set_r')
    moreover have "HeightOf t' = h \<or> HeightOf t' = h + 1"
      using t'(5) avl(3,4) r'(5) by (auto simp: BalanceOf_def split: if_splits)
    ultimately show ?thesis using t'(2,3) by auto
  qed
qed

lemma new_node_Inr: "new_node nd l v r = Inr t \<Longrightarrow> t = Node () (max (HeightOf l) (HeightOf r) + 1) l v r"
  by (auto simp: new_node_def assert_def split: if_splits)

lemma bind_result_Inr: "bind_result m f = Inr y \<longleftrightarrow> (\<exists>x. m = Inr x \<and> f x = Inr y)"
  by (cases m) auto

lemma mk3_inorder:
  "mk3 nd a k1 b k2 c k3 d = Inr t \<Longrightarrow>
   inorder t = inorder a @ k1 # inorder b @ k2 # inorder c @ k3 # inorder d"
  by (auto simp: mk3_def bind_result_Inr dest!: new_node_Inr)

lemma mk2_inorder:
  "mk2 nd a k1 b k2 c f = Inr t \<Longrightarrow>
   inorder t = inorder a @ k1 # inorder b @ k2 # inorder c"
  by (auto simp: mk2_def bind_result_Inr dest!: new_node_Inr split: if_splits)

lemma SlowPath_inorder:
  "MakeAndRebalanceSlowPath nd l v r b = Inr t \<Longrightarrow> inorder t = inorder l @ v # inorder r"
  by (auto simp: MakeAndRebalanceSlowPath_def bind_result_Inr
      split: if_splits node.splits dest!: mk3_inorder mk2_inorder)

lemma MakeAndRebalance_inorder:
  "MakeAndRebalance nd l v r = Inr t \<Longrightarrow> inorder t = inorder l @ v # inorder r"
  by (auto simp: MakeAndRebalance_def Let_def split: if_splits
      dest!: SlowPath_inorder new_node_Inr)

lemma Rec_inorder:
  "Rec nd t x = Inr t' \<Longrightarrow> mset (inorder t') = add_mset x (mset (inorder t))"
proof (induction t arbitrary: t')
  case Null
  then show ?case by (auto simp: new_leaf_def)
next
  case (Node rc h l v r)
  then show ?case
    by (auto simp: bind_result_Inr split: if_splits dest!: MakeAndRebalance_inorder)
qed


lemma find_append_if:
  "find P (xs @ ys) = (case find P xs of None \<Rightarrow> find P ys | Some x \<Rightarrow> Some x)"
  by (induction xs) auto

lemma LowerBound_loop_find:
  "sorted (inorder t) \<Longrightarrow>
   node_key (LowerBound_loop t best q) =
     (case find (\<lambda>k. q \<le> k) (inorder t) of None \<Rightarrow> node_key best | Some k \<Rightarrow> Some k)"
proof (induction t arbitrary: best)
  case Null
  then show ?case by simp
next
  case (Node rc h l v r)
  have s: "sorted (inorder l)" "sorted (inorder r)" "\<forall>x\<in>set (inorder l). x \<le> v"
    using Node.prems by (auto simp: sorted_append)
  show ?case
  proof (cases "v < q")
    case True
    then have "find (\<lambda>k. q \<le> k) (inorder l) = None"
      using s(3) by (auto simp: find_None_iff)
    then show ?thesis using True Node.IH(2)[OF s(2)] by (auto simp: find_append_if)
  next
    case False
    then show ?thesis using Node.IH(1)[OF s(1)] by (auto simp: find_append_if split: option.splits)
  qed
qed

lemma find_sorted_Min:
  "sorted xs \<Longrightarrow> find (\<lambda>k. q \<le> k) xs =
     (if \<exists>k\<in>set xs. q \<le> k then Some (Min {k \<in> set xs. q \<le> k}) else None)"
proof (induction xs)
  case Nil
  then show ?case by simp
next
  case (Cons x xs)
  show ?case
  proof (cases "q \<le> x")
    case True
    have "Min {k \<in> set (x # xs). q \<le> k} = x"
      using Cons.prems True by (intro Min_eqI) auto
    then show ?thesis using True by simp
  next
    case False
    then have "{k \<in> set (x # xs). q \<le> k} = {k \<in> set xs. q \<le> k}" by auto
    then show ?thesis using False Cons by auto
  qed
qed

section \<open>Debug and release builds\<close>

lemma new_node_ndebug: "new_node False l v r = Inr t \<Longrightarrow> new_node True l v r = Inr t"
  by (auto simp: new_node_def bind_result_Inr)

lemma mk3_ndebug: "mk3 False a k1 b k2 c k3 d = Inr t \<Longrightarrow> mk3 True a k1 b k2 c k3 d = Inr t"
  by (auto simp: mk3_def bind_result_Inr dest!: new_node_ndebug)

lemma mk2_ndebug: "mk2 False a k1 b k2 c f = Inr t \<Longrightarrow> mk2 True a k1 b k2 c f = Inr t"
  by (auto simp: mk2_def bind_result_Inr dest!: new_node_ndebug split: if_splits)

lemma SlowPath_ndebug:
  "MakeAndRebalanceSlowPath False l v r b = Inr t \<Longrightarrow> MakeAndRebalanceSlowPath True l v r b = Inr t"
  by (auto simp: MakeAndRebalanceSlowPath_def bind_result_Inr
      split: if_splits node.splits dest!: mk3_ndebug mk2_ndebug)

lemma MakeAndRebalance_ndebug:
  "MakeAndRebalance False l v r = Inr t \<Longrightarrow> MakeAndRebalance True l v r = Inr t"
  by (auto simp: MakeAndRebalance_def Let_def split: if_splits
      dest!: SlowPath_ndebug new_node_ndebug)

lemma Rec_ndebug: "Rec False t x = Inr t' \<Longrightarrow> Rec True t x = Inr t'"
proof (induction t arbitrary: t')
  case Null
  then show ?case by simp
next
  case (Node rc h l v r)
  then show ?case
    by (auto simp: bind_result_Inr split: if_splits dest!: MakeAndRebalance_ndebug)
qed

lemma Insert_ndebug: "Insert False t x = Inr t' \<Longrightarrow> Insert True t x = Inr t'"
  by (auto simp: Insert_def bind_result_Inr split: option.splits dest!: Rec_ndebug)

lemma InsertAll_False_True: "InsertAll False t ks = Inr t' \<Longrightarrow> InsertAll True t ks = Inr t'"
proof (induction ks arbitrary: t)
  case Nil
  then show ?case by simp
next
  case (Cons k ks)
  then show ?case by (auto simp: bind_result_Inr dest!: Insert_ndebug)
qed

lemma InsertAll_ndebug: "InsertAll nd t ks = Inr t' \<Longrightarrow> InsertAll True t ks = Inr t'"
  by (cases nd) (auto dest: InsertAll_False_True)

lemma Insert_inv:
  assumes "tree_inv t" "nd \<or> (sorted_wrt (<) (keys_of t) \<and> x \<notin> set (keys_of t))"
  shows "\<exists>n. Insert nd t x = Inr (Some n) \<and> tree_inv (Some n)
      \<and> mset (keys_of (Some n)) = add_mset x (mset (keys_of t))
      \<and> (sorted (keys_of t) \<longrightarrow> sorted (keys_of (Some n)))"
proof (cases t)
  case None
  then show ?thesis by (simp add: Insert_def tree_inv_def keys_of_def new_leaf_def)
next
  case (Some n)
  then have "avl n" "nd \<or> (sorted_wrt (<) (inorder n) \<and> x \<notin> set (inorder n))"
    using assms by (auto simp: tree_inv_def keys_of_def)
  from Rec_avl[OF this] show ?thesis
    using Some by (auto simp: Insert_def tree_inv_def keys_of_def)
qed

lemma InsertAll_inv:
  assumes "tree_inv t" "sorted (keys_of t)"
    and "nd \<or> distinct (keys_of t @ ks)"
  shows "\<exists>t'. InsertAll nd t ks = Inr t' \<and> tree_inv t' \<and> sorted (keys_of t')
      \<and> mset (keys_of t') = mset (keys_of t) + mset ks \<and> (t' = None \<longrightarrow> t = None \<and> ks = [])"
  using assms
proof (induction ks arbitrary: t)
  case Nil
  then show ?case by simp
next
  case (Cons k ks)
  have "nd \<or> (sorted_wrt (<) (keys_of t) \<and> k \<notin> set (keys_of t))"
    using Cons.prems(2,3) by (auto simp: strict_sorted_iff)
  from Insert_inv[OF Cons.prems(1) this] obtain n where
    n: "Insert nd t k = Inr (Some n)" "tree_inv (Some n)"
      "mset (keys_of (Some n)) = add_mset k (mset (keys_of t))" "sorted (keys_of (Some n))"
    using Cons.prems(2) by blast
  have "distinct (keys_of t @ k # ks) \<Longrightarrow> distinct (keys_of (Some n) @ ks)"
  proof -
    assume d: "distinct (keys_of t @ k # ks)"
    have "mset (keys_of (Some n) @ ks) = mset (keys_of t @ k # ks)" using n(3) by simp
    then show ?thesis using d by (metis mset_eq_imp_distinct_iff)
  qed
  then have "nd \<or> distinct (keys_of (Some n) @ ks)" using Cons.prems(3) by blast
  from Cons.IH[OF n(2) n(4) this] show ?case using n(1,3) by auto
qed

lemma avl_iff: "avl t \<longleftrightarrow> balanced t \<and> heights_stored t"
  by (induction t) auto

lemma heights_stored_shape: "heights_stored t \<Longrightarrow> HeightOf t = int (shape_height t)"
  by (induction t) auto

section \<open>The claims about the AVL tree\<close>

lemmas avl_eval = Insert_def MakeAndRebalance_def MakeAndRebalanceSlowPath_def mk2_def mk3_def
  new_node_def new_leaf_def BalanceOf_def fast_path_mod assert_def keys_of_def LowerBound_def

text \<open>
  C8. For every balance with \<open>\<bar>balance\<bar> \<le> 2\<close> the test \<open>(balance & 3) != 2\<close> on the
  two's-complement \<open>int\<close> agrees with the reference test \<open>balance \<in> {-1, 0, 1}\<close>; so
  \<open>MakeAndRebalance\<close> constructs the node directly, with height
  \<open>max(height(left), height(right)) + 1\<close>, exactly when the balance is in \<open>{-1, 0, 1}\<close>, and
  takes the rotation slow path exactly when \<open>\<bar>balance\<bar> = 2\<close>. (That the balance stays within
  \<open>\<plusminus>2\<close> after one insertion step into an AVL subtree is part of \<open>Rec_avl\<close>.)
\<close>

theorem fast_path_refines_spec_test:
  assumes "\<bar>BalanceOf l r\<bar> \<le> 2"
  shows "fast_path (BalanceOf l r) = spec_not_out_of_balance (BalanceOf l r)
    \<and> (spec_not_out_of_balance (BalanceOf l r) \<longrightarrow>
         MakeAndRebalance ndebug l v r = Inr (Node () (max (HeightOf l) (HeightOf r) + 1) l v r))
    \<and> (\<bar>BalanceOf l r\<bar> = 2 \<longrightarrow>
         MakeAndRebalance ndebug l v r = MakeAndRebalanceSlowPath ndebug l v r (BalanceOf l r))"
proof -
  have 1: "fast_path (BalanceOf l r) = spec_not_out_of_balance (BalanceOf l r)"
    using assms unfolding fast_path_mod spec_not_out_of_balance_def by (auto; presburger)
  have 2: "spec_not_out_of_balance (BalanceOf l r) \<Longrightarrow>
         MakeAndRebalance ndebug l v r = Inr (Node () (max (HeightOf l) (HeightOf r) + 1) l v r)"
    using 1 by (auto simp: MakeAndRebalance_def spec_not_out_of_balance_def intro!: new_node_ok)
  have 3: "\<bar>BalanceOf l r\<bar> = 2 \<Longrightarrow>
         MakeAndRebalance ndebug l v r = MakeAndRebalanceSlowPath ndebug l v r (BalanceOf l r)"
  proof -
    assume a: "\<bar>BalanceOf l r\<bar> = 2"
    then have "\<not> fast_path (BalanceOf l r)"
      unfolding 1 spec_not_out_of_balance_def by auto
    then show ?thesis by (simp add: MakeAndRebalance_def Let_def)
  qed
  show ?thesis using 1 2 3 by blast
qed

text \<open>
  The test at a node with an empty left subtree and a leaf on the right (balance 1).
\<close>

theorem fast_path_refines_spec_test_witness:
  "\<bar>BalanceOf Null (new_leaf ''b'')\<bar> \<le> 2
   \<and> fast_path (BalanceOf Null (new_leaf ''b''))
   \<and> spec_not_out_of_balance (BalanceOf Null (new_leaf ''b''))
   \<and> MakeAndRebalance False Null ''a'' (new_leaf ''b'') = Inr (Node () 2 Null ''a'' (new_leaf ''b''))"
proof -
  have h: "\<bar>BalanceOf Null (new_leaf ''b'')\<bar> \<le> 2" by (simp add: BalanceOf_def new_leaf_def)
  have s: "spec_not_out_of_balance (BalanceOf Null (new_leaf ''b''))"
    by (simp add: spec_not_out_of_balance_def BalanceOf_def new_leaf_def)
  show ?thesis
    using h s fast_path_refines_spec_test [OF h, of False "''a''"]
    by (simp add: new_leaf_def)
qed

lemma InsertAll_sorted:
  assumes "InsertAll nd None ks = Inr t"
  shows "tree_inv t \<and> sorted (keys_of t) \<and> mset (keys_of t) = mset ks \<and> (t = None \<longrightarrow> ks = [])"
proof -
  have e: "InsertAll True None ks = Inr t" using assms by (rule InsertAll_ndebug)
  have "tree_inv None" "sorted (keys_of (None :: unit AVLTree))"
    by (simp_all add: tree_inv_def keys_of_def)
  from InsertAll_inv[OF this, of True ks] e show ?thesis by (auto simp: keys_of_def)
qed

lemma LowerBound_eq_loop:
  "tree_inv t \<Longrightarrow> LowerBound t q = Inr (case t of None \<Rightarrow> Null | Some n \<Rightarrow> LowerBound_loop n Null q)"
  by (auto simp: LowerBound_def tree_inv_def split: option.splits node.splits)

lemma node_key_None: "node_key n = None \<longleftrightarrow> n = Null"
  by (cases n) auto

lemma LowerBound_spec:
  assumes "tree_inv t" "sorted (keys_of t)"
  shows "\<exists>n. LowerBound t q = Inr n \<and>
    node_key n = (if \<exists>k\<in>set (keys_of t). q \<le> k then Some (Min {k \<in> set (keys_of t). q \<le> k}) else None)"
proof (cases t)
  case None
  then show ?thesis by (simp add: LowerBound_def keys_of_def)
next
  case (Some n)
  have "node_key (LowerBound_loop n Null q) =
    (if \<exists>k\<in>set (inorder n). q \<le> k then Some (Min {k \<in> set (inorder n). q \<le> k}) else None)"
    using assms(2) Some
    by (simp add: LowerBound_loop_find find_sorted_Min keys_of_def del: LowerBound_loop.simps)
  then show ?thesis using LowerBound_eq_loop[OF assms(1), of q] Some by (simp add: keys_of_def)
qed

text \<open>
  C1. For every tree built by \<open>Insert\<close> calls and every query \<open>q\<close>, \<open>LowerBound\<close> returns a
  node holding the least stored key that is \<open>\<ge> q\<close>, or the null pointer when every stored
  key is smaller; a query equal to the greatest stored key returns that key, a query above
  all stored keys returns null, and on the empty tree every query returns null.
\<close>

theorem LowerBound_min_key_geq:
  assumes "InsertAll ndebug None ks = Inr t"
  shows "(\<exists>n. LowerBound t q = Inr n \<and>
           node_key n = (if \<exists>k\<in>set ks. q \<le> k then Some (Min {k \<in> set ks. q \<le> k}) else None))
    \<and> (ks \<noteq> [] \<longrightarrow> (\<exists>n. LowerBound t (Max (set ks)) = Inr n \<and> node_key n = Some (Max (set ks))))
    \<and> ((\<forall>k\<in>set ks. k < q) \<longrightarrow> LowerBound t q = Inr Null)
    \<and> LowerBound (None :: unit AVLTree) q = Inr Null"
proof -
  from InsertAll_sorted[OF assms] have inv: "tree_inv t" "sorted (keys_of t)"
    and ks: "set (keys_of t) = set ks"
    by (auto dest: mset_eq_setD)
  have main: "\<exists>n. LowerBound t q' = Inr n \<and>
           node_key n = (if \<exists>k\<in>set ks. q' \<le> k then Some (Min {k \<in> set ks. q' \<le> k}) else None)" for q'
    using LowerBound_spec[OF inv, of q'] unfolding ks .
  have "\<exists>n. LowerBound t (Max (set ks)) = Inr n \<and> node_key n = Some (Max (set ks))" if "ks \<noteq> []"
  proof -
    have m: "Max (set ks) \<in> set ks" using that by simp
    have "{k \<in> set ks. Max (set ks) \<le> k} = {Max (set ks)}"
      using m by (auto simp: antisym)
    then show ?thesis using main[of "Max (set ks)"] m by auto
  qed
  moreover have "LowerBound t q = Inr Null" if "\<forall>k\<in>set ks. k < q"
  proof -
    have "\<not> (\<exists>k\<in>set ks. q \<le> k)" using that by auto
    then show ?thesis using main[of q] by (auto simp: node_key_None)
  qed
  moreover have "LowerBound (None :: unit AVLTree) q = Inr Null" by (simp add: LowerBound_def)
  ultimately show ?thesis using main[of q] by blast
qed


text \<open>
  Scenario 1 of the specification: after inserting \<open>b\<close>, \<open>a\<close>, \<open>c\<close> the query \<open>ab\<close> returns
  the node of \<open>b\<close> and the query \<open>d\<close> returns null.
\<close>

theorem LowerBound_min_key_geq_witness:
  "InsertAll False None [''b'', ''a'', ''c'']
     = Inr (Some (Node () 2 (Node () 1 Null ''a'' Null) ''b'' (Node () 1 Null ''c'' Null)))
   \<and> LowerBound (Some (Node () 2 (Node () 1 Null ''a'' Null) ''b'' (Node () 1 Null ''c'' Null))) ''ab''
     = Inr (Node () 2 (Node () 1 Null ''a'' Null) ''b'' (Node () 1 Null ''c'' Null))
   \<and> Min {k \<in> set [''b'', ''a'', ''c'']. ''ab'' \<le> k} = ''b''
   \<and> LowerBound (Some (Node () 2 (Node () 1 Null ''a'' Null) ''b'' (Node () 1 Null ''c'' Null))) ''d''
     = Inr Null"
proof -
  let ?t = "Some (Node () 2 (Node () 1 Null ''a'' Null) ''b'' (Node () 1 Null ''c'' Null))"
  have b: "InsertAll False None [''b'', ''a'', ''c''] = Inr ?t"
    by (simp add: avl_eval)
  have l: "LowerBound ?t ''ab'' = Inr (Node () 2 (Node () 1 Null ''a'' Null) ''b'' (Node () 1 Null ''c'' Null))"
    by (simp add: avl_eval)
  have ex: "\<exists>k\<in>set [''b'', ''a'', ''c'']. ''ab'' \<le> k" by simp
  have all: "\<forall>k\<in>set [''b'', ''a'', ''c'']. k < ''d''" by simp
  from LowerBound_min_key_geq [OF b, of "''ab''"] l ex
  have m: "Min {k \<in> set [''b'', ''a'', ''c'']. ''ab'' \<le> k} = ''b''"
    by (simp only: if_True) auto
  from LowerBound_min_key_geq [OF b, of "''d''"] all
  have n: "LowerBound ?t ''d'' = Inr Null" by blast
  show ?thesis using b l m n by blast
qed

text \<open>
  C3. After any sequence of \<open>Insert\<close> calls with pairwise distinct keys, starting from the
  empty tree, in a debug build as well as with \<open>NDEBUG\<close>, no call fails and the tree
  satisfies (1) its in-order key sequence is strictly increasing, (2) every node has
  \<open>\<bar>height(left) - height(right)\<bar> \<le> 1\<close>, and (3) every stored height is
  \<open>max(height(left), height(right)) + 1\<close> with height 0 for null (so the stored height is
  the height of the shape). Every prefix of a list of distinct keys is such a list, so
  this holds after every completed \<open>Insert\<close>.
\<close>

theorem Insert_keeps_invariants:
  assumes "distinct ks"
  shows "\<exists>t. InsertAll ndebug None ks = Inr t
    \<and> sorted_wrt (<) (keys_of t) \<and> set (keys_of t) = set ks
    \<and> (case t of None \<Rightarrow> ks = []
        | Some n \<Rightarrow> n \<noteq> Null \<and> balanced n \<and> heights_stored n \<and> HeightOf n = int (shape_height n))"
proof -
  have "tree_inv None" "sorted (keys_of (None :: unit AVLTree))"
    "ndebug \<or> distinct (keys_of (None :: unit AVLTree) @ ks)"
    using assms by (simp_all add: tree_inv_def keys_of_def)
  from InsertAll_inv[OF this] obtain t where
    t: "InsertAll ndebug None ks = Inr t" "tree_inv t" "sorted (keys_of t)"
      "mset (keys_of t) = mset ks" "t = None \<longrightarrow> ks = []"
    by (auto simp: keys_of_def)
  have "distinct (keys_of t)" using t(4) assms by (metis mset_eq_imp_distinct_iff)
  then have "sorted_wrt (<) (keys_of t)" using t(3) by (simp add: strict_sorted_iff)
  moreover have "set (keys_of t) = set ks" using t(4) by (rule mset_eq_setD)
  moreover have "case t of None \<Rightarrow> ks = []
        | Some n \<Rightarrow> n \<noteq> Null \<and> balanced n \<and> heights_stored n \<and> HeightOf n = int (shape_height n)"
    using t(2,5) by (auto simp: tree_inv_def avl_iff heights_stored_shape split: option.splits)
  ultimately show ?thesis using t(1) by blast
qed

text \<open>
  Scenario 2 of the specification: inserting \<open>c\<close>, \<open>b\<close>, \<open>a\<close> triggers a rotation and gives
  a tree of height 2.
\<close>

theorem Insert_keeps_invariants_witness:
  "distinct [''c'', ''b'', ''a'']
   \<and> InsertAll False None [''c'', ''b'', ''a'']
       = Inr (Some (Node () 2 (Node () 1 Null ''a'' Null) ''b'' (Node () 1 Null ''c'' Null)))
   \<and> sorted_wrt (<) (keys_of (Some (Node () 2 (Node () 1 Null ''a'' Null) ''b'' (Node () 1 Null ''c'' Null))))
   \<and> balanced (Node () 2 (Node () 1 Null ''a'' Null) ''b'' (Node () 1 Null ''c'' Null))
   \<and> heights_stored (Node () 2 (Node () 1 Null ''a'' Null) ''b'' (Node () 1 Null ''c'' Null))"
proof -
  have d: "distinct [''c'', ''b'', ''a'']" by simp
  have b: "InsertAll False None [''c'', ''b'', ''a'']
       = Inr (Some (Node () 2 (Node () 1 Null ''a'' Null) ''b'' (Node () 1 Null ''c'' Null)))"
    by (simp add: avl_eval)
  show ?thesis using d b Insert_keeps_invariants [OF d, of False]
    by (simp add: keys_of_def)
qed

lemma mk3_shape:
  "mk3 nd a k1 b k2 c k3 d = Inr t \<Longrightarrow>
   \<exists>h1 h2 h3. t = Node () h1 (Node () h2 a k1 b) k2 (Node () h3 c k3 d)"
  by (auto simp: mk3_def bind_result_Inr dest!: new_node_Inr)

lemma mk2_shape:
  "mk2 nd a k1 b k2 c f = Inr t \<Longrightarrow>
   \<exists>h1 h2. t = (if f then Node () h1 a k1 (Node () h2 b k2 c) else Node () h1 (Node () h2 a k1 b) k2 c)"
  by (auto simp: mk2_def bind_result_Inr dest!: new_node_Inr split: if_splits)

lemma SlowPath_left_shape:
  assumes "MakeAndRebalanceSlowPath nd l v r (- 2) = Inr t"
  shows "if BalanceOf (left l) (right l) = 1 then double_left l v r t else single_left l v r t"
  using assms
  by (auto simp: MakeAndRebalanceSlowPath_def bind_result_Inr
      split: if_splits node.splits dest!: mk3_shape mk2_shape)

lemma SlowPath_right_shape:
  assumes "MakeAndRebalanceSlowPath nd l v r 2 = Inr t"
  shows "if BalanceOf (left r) (right r) = - 1 then double_right l v r t else single_right l v r t"
  using assms
  by (auto simp: MakeAndRebalanceSlowPath_def bind_result_Inr
      split: if_splits node.splits dest!: mk3_shape mk2_shape)

text \<open>
  C5 (amended). Whenever \<open>MakeAndRebalance\<close> returns, the in-order key sequence of the
  result is that of \<open>left\<close>, \<open>value\<close>, \<open>right\<close>. With balance \<open>-2\<close> the result is the double
  rotation (the left child's right child on top) exactly when
  \<open>BalanceOf(left->left, left->right) = 1\<close>, and the single rotation (the left child on top)
  otherwise, that is, for an AVL left child, when its balance is \<open>-1\<close> or \<open>0\<close>: left-heavy
  or balanced, which with \<open>balance = height(right) - height(left)\<close> is \<open>balance(left) \<le> 0\<close>.
  With balance \<open>2\<close> the mirror image holds, the double rotation being taken exactly when
  \<open>BalanceOf(right->left, right->right) = -1\<close>.
\<close>

theorem rotation_dispatch:
  assumes "MakeAndRebalance ndebug l v r = Inr t"
  shows "inorder t = inorder l @ v # inorder r
    \<and> (BalanceOf l r = - 2 \<longrightarrow>
         (if BalanceOf (left l) (right l) = 1 then double_left l v r t else single_left l v r t))
    \<and> (BalanceOf l r = 2 \<longrightarrow>
         (if BalanceOf (left r) (right r) = - 1 then double_right l v r t else single_right l v r t))"
proof -
  have "MakeAndRebalanceSlowPath ndebug l v r (- 2) = Inr t" if "BalanceOf l r = - 2"
    using assms that by (simp add: MakeAndRebalance_def fast_path_mod)
  moreover have "MakeAndRebalanceSlowPath ndebug l v r 2 = Inr t" if "BalanceOf l r = 2"
    using assms that by (simp add: MakeAndRebalance_def fast_path_mod)
  ultimately show ?thesis
    using MakeAndRebalance_inorder[OF assms] SlowPath_left_shape SlowPath_right_shape by blast
qed

text \<open>
  A left-deep node whose left child is left-heavy: a single rotation.
\<close>

theorem rotation_dispatch_witness:
  "MakeAndRebalance False (Node () 2 (Node () 1 Null ''a'' Null) ''c'' Null) ''e'' Null
     = Inr (Node () 2 (Node () 1 Null ''a'' Null) ''c'' (Node () 1 Null ''e'' Null))
   \<and> BalanceOf (Node () 2 (Node () 1 Null ''a'' Null) ''c'' Null) (Null :: unit node) = - 2
   \<and> BalanceOf (Node () 1 Null ''a'' Null) (Null :: unit node) = - 1
   \<and> single_left (Node () 2 (Node () 1 Null ''a'' Null) ''c'' Null) ''e'' Null
       (Node () 2 (Node () 1 Null ''a'' Null) ''c'' (Node () 1 Null ''e'' Null))
   \<and> inorder (Node () 2 (Node () 1 Null ''a'' Null) ''c'' (Node () 1 Null ''e'' Null)) = [''a'', ''c'', ''e'']"
proof -
  have e: "MakeAndRebalance False (Node () 2 (Node () 1 Null ''a'' Null) ''c'' Null) ''e'' Null
     = Inr (Node () 2 (Node () 1 Null ''a'' Null) ''c'' (Node () 1 Null ''e'' Null))"
    by (simp add: avl_eval)
  show ?thesis using e rotation_dispatch [OF e] by (simp add: BalanceOf_def)
qed

text \<open>
  C5 as stated fails on the sign check \<open>balance(left) \<ge> 0\<close>: a left child with balance
  \<open>1 \<ge> 0\<close> gets the double rotation (the result is not the single-rotation shape), and a
  left child with balance \<open>-1 < 0\<close> gets the single rotation.
\<close>

theorem rotation_sign_check_counterexample:
  "BalanceOf (Node () 2 Null ''a'' (Node () 1 Null ''c'' Null)) (Null :: unit node) = - 2
   \<and> BalanceOf (Null :: unit node) (Node () 1 Null ''c'' Null) \<ge> 0
   \<and> MakeAndRebalance False (Node () 2 Null ''a'' (Node () 1 Null ''c'' Null)) ''e'' Null
       = Inr (Node () 2 (Node () 1 Null ''a'' Null) ''c'' (Node () 1 Null ''e'' Null))
   \<and> \<not> single_left (Node () 2 Null ''a'' (Node () 1 Null ''c'' Null)) ''e'' Null
       (Node () 2 (Node () 1 Null ''a'' Null) ''c'' (Node () 1 Null ''e'' Null))
   \<and> BalanceOf (Node () 2 (Node () 1 Null ''a'' Null) ''c'' Null) (Null :: unit node) = - 2
   \<and> BalanceOf (Node () 1 Null ''a'' Null) (Null :: unit node) < 0
   \<and> MakeAndRebalance False (Node () 2 (Node () 1 Null ''a'' Null) ''c'' Null) ''e'' Null
       = Inr (Node () 2 (Node () 1 Null ''a'' Null) ''c'' (Node () 1 Null ''e'' Null))
   \<and> single_left (Node () 2 (Node () 1 Null ''a'' Null) ''c'' Null) ''e'' Null
       (Node () 2 (Node () 1 Null ''a'' Null) ''c'' (Node () 1 Null ''e'' Null))"
  by (simp add: avl_eval)

lemma fib_mono_Suc: "fib n \<le> fib (Suc n)"
  by (induction n rule: fib.induct) auto

lemma fib_mono: "m \<le> n \<Longrightarrow> fib m \<le> fib n"
  by (induction n) (auto simp: le_Suc_eq intro: order_trans[OF _ fib_mono_Suc])

lemma avl_fib: "avl t \<Longrightarrow> fib (shape_height t + 2) \<le> node_count_of t + 1"
proof (induction t)
  case Null
  then show ?case by (simp add: numeral_2_eq_2)
next
  case (Node rc h l v r)
  have a: "avl l" "avl r" "\<bar>HeightOf l - HeightOf r\<bar> \<le> 1" using Node.prems by auto
  have hs: "HeightOf l = int (shape_height l)" "HeightOf r = int (shape_height r)"
    using a(1,2) by (simp_all add: avl_iff heights_stored_shape)
  let ?m = "max (shape_height l) (shape_height r)"
  have d: "shape_height r \<le> shape_height l + 1" "shape_height l \<le> shape_height r + 1"
    using a(3) unfolding hs by auto
  have "fib (shape_height (Node rc h l v r) + 2) = fib (?m + 2) + fib (?m + 1)"
    by (simp add: numeral_2_eq_2)
  also have "\<dots> \<le> fib (shape_height l + 2) + fib (shape_height r + 2)"
  proof (cases "shape_height l \<le> shape_height r")
    case True
    then have "?m = shape_height r" by simp
    moreover have "fib (shape_height r + 1) \<le> fib (shape_height l + 2)"
      using d(1) by (intro fib_mono) auto
    ultimately show ?thesis by simp
  next
    case False
    then have "?m = shape_height l" by simp
    moreover have "fib (shape_height l + 1) \<le> fib (shape_height r + 2)"
      using d(2) by (intro fib_mono) auto
    ultimately show ?thesis by simp
  qed
  also have "\<dots> \<le> node_count_of (Node rc h l v r) + 1"
    using Node.IH(1)[OF a(1)] Node.IH(2)[OF a(2)] by simp
  finally show ?case .
qed

lemma golden_ratio_sq: "golden_ratio ^ 2 = golden_ratio + 1"
  by (simp add: golden_ratio_def power2_eq_square field_simps)

lemma golden_ratio_gt1: "1 < golden_ratio"
proof -
  have "1 < sqrt 5" by simp
  then show ?thesis by (simp add: golden_ratio_def)
qed

lemma golden_ratio_fib: "golden_ratio ^ n \<le> real (fib (n + 2))"
proof (induction n rule: fib.induct)
  case 1
  then show ?case by (simp add: numeral_2_eq_2)
next
  case 2
  have "sqrt 5 < 3" by (rule real_less_lsqrt) auto
  then show ?case by (simp add: numeral_2_eq_2 numeral_3_eq_3 golden_ratio_def)
next
  case (3 n)
  have "golden_ratio ^ Suc (Suc n) = golden_ratio ^ n * golden_ratio ^ 2"
    by (simp add: power2_eq_square)
  also have "\<dots> = golden_ratio ^ Suc n + golden_ratio ^ n"
    by (simp add: golden_ratio_sq algebra_simps)
  also have "\<dots> \<le> real (fib (Suc n + 2)) + real (fib (n + 2))"
    using 3 by simp
  finally show ?case by simp
qed

lemma node_count_inorder: "node_count_of t = length (inorder t)"
  by (induction t) auto

lemma InsertAll_distinct_ok:
  assumes "distinct ks"
  shows "\<exists>t. InsertAll nd None ks = Inr t \<and> tree_inv t \<and> mset (keys_of t) = mset ks"
proof -
  have "tree_inv None" "sorted (keys_of (None :: unit AVLTree))"
    "nd \<or> distinct (keys_of (None :: unit AVLTree) @ ks)"
    using assms by (simp_all add: tree_inv_def keys_of_def)
  from InsertAll_inv[OF this] show ?thesis by (auto simp: keys_of_def)
qed

lemma gr_mult: "(a * golden_ratio + b) * (c * golden_ratio + d)
   = (a * c + a * d + b * c) * golden_ratio + (a * c + b * d)"
proof -
  have "(a * golden_ratio + b) * (c * golden_ratio + d)
     = a * c * golden_ratio ^ 2 + (a * d + b * c) * golden_ratio + b * d"
    by (simp add: power2_eq_square algebra_simps)
  then show ?thesis by (simp add: golden_ratio_sq algebra_simps)
qed

lemma gr4: "golden_ratio ^ 4 = 3 * golden_ratio + 2"
proof -
  have "golden_ratio ^ 4 = (1 * golden_ratio + 1) * (1 * golden_ratio + 1)"
    using golden_ratio_sq by (simp add: power4_eq_xxxx power2_eq_square)
  then show ?thesis unfolding gr_mult by simp
qed

lemma gr8: "golden_ratio ^ 8 = 21 * golden_ratio + 13"
proof -
  have "golden_ratio ^ 8 = golden_ratio ^ 4 * golden_ratio ^ 4" by (simp flip: power_add)
  then show ?thesis unfolding gr4 gr_mult by simp
qed

lemma gr16: "golden_ratio ^ 16 = 987 * golden_ratio + 610"
proof -
  have "golden_ratio ^ 16 = golden_ratio ^ 8 * golden_ratio ^ 8" by (simp flip: power_add)
  then show ?thesis unfolding gr8 gr_mult by simp
qed

lemma gr32: "golden_ratio ^ 32 = 2178309 * golden_ratio + 1346269"
proof -
  have "golden_ratio ^ 32 = golden_ratio ^ 16 * golden_ratio ^ 16" by (simp flip: power_add)
  then show ?thesis unfolding gr16 gr_mult by simp
qed

lemma gr49: "golden_ratio ^ 49 = 7778742049 * golden_ratio + 4807526976"
proof -
  have "golden_ratio ^ 48 = golden_ratio ^ 32 * golden_ratio ^ 16" by (simp flip: power_add)
  then have a: "golden_ratio ^ 48 = 4807526976 * golden_ratio + 2971215073"
    unfolding gr16 gr32 gr_mult by simp
  have "golden_ratio ^ 49 = golden_ratio ^ 48 * (1 * golden_ratio + 0)" by (simp flip: power_Suc2)
  then show ?thesis unfolding a gr_mult by simp
qed

lemma golden_ratio_lower: "1618 / 1000 \<le> golden_ratio"
proof -
  have "2236 / 1000 \<le> sqrt 5" by (rule real_le_rsqrt) (simp add: power2_eq_square)
  then show ?thesis by (simp add: golden_ratio_def)
qed

lemma log2_golden_ratio: "34 / 49 \<le> log 2 golden_ratio"
proof -
  have "(2::real) ^ 34 \<le> golden_ratio ^ 49"
    unfolding gr49 using golden_ratio_lower by simp
  then have "log 2 (2 ^ 34) \<le> log 2 (golden_ratio ^ 49)"
    by (subst log_le_cancel_iff) (use golden_ratio_gt1 in auto)
  moreover have "log 2 (2 ^ 34) = (34::real)"
    using log_nat_power[of 2 2 34] by simp
  moreover have "log 2 (golden_ratio ^ 49) = 49 * log 2 golden_ratio"
    using golden_ratio_gt1 by (simp add: log_nat_power)
  ultimately have "34 \<le> 49 * log 2 golden_ratio" by (simp only:)
  then show ?thesis by simp
qed

text \<open>
  C7. Inserting \<open>n\<close> pairwise distinct keys into the empty tree succeeds and gives a tree
  whose root height \<open>h\<close> satisfies \<open>fib (h + 2) \<le> n + 1\<close> (a tree of height \<open>h\<close> has at least
  Fibonacci-many nodes), hence \<open>h \<le> log\<^sub>2 (n + 2) / log\<^sub>2 \<phi>\<close> with the golden ratio
  \<open>\<phi>\<close>, where \<open>1 / log\<^sub>2 \<phi> = 1.4404...\<close>, and in particular
  \<open>h \<le> 49/34 * log\<^sub>2 (n + 2)\<close> with \<open>49/34 = 1.4411...\<close>.
\<close>

theorem height_logarithmic:
  assumes "distinct ks"
  shows "\<exists>t. InsertAll ndebug None ks = Inr t \<and> 0 \<le> root_height t
    \<and> fib (nat (root_height t) + 2) \<le> length ks + 1
    \<and> real_of_int (root_height t) \<le> log 2 (real (length ks) + 2) / log 2 golden_ratio
    \<and> real_of_int (root_height t) \<le> 49 / 34 * log 2 (real (length ks) + 2)"
proof -
  from InsertAll_distinct_ok[OF assms, of ndebug] obtain t where
    t: "InsertAll ndebug None ks = Inr t" "tree_inv t" "mset (keys_of t) = mset ks"
    by blast
  define n where "n = length ks"
  define h where "h = nat (root_height t)"
  have len: "length (keys_of t) = n" using t(3) unfolding n_def by (metis size_mset)
  have hn: "0 \<le> root_height t" and f: "fib (h + 2) \<le> n + 1"
  proof -
    show "0 \<le> root_height t"
      using t(2) by (auto simp: root_height_def tree_inv_def HeightOf_nonneg split: option.splits)
    show "fib (h + 2) \<le> n + 1"
    proof (cases t)
      case None
      then show ?thesis by (simp add: h_def root_height_def numeral_2_eq_2)
    next
      case (Some a)
      then have "avl a" using t(2) by (simp add: tree_inv_def)
      then have "fib (shape_height a + 2) \<le> node_count_of a + 1"
        and "HeightOf a = int (shape_height a)"
        using avl_fib[of a] by (simp_all add: avl_iff heights_stored_shape)
      then show ?thesis using Some len
        by (simp add: h_def root_height_def node_count_inorder keys_of_def)
    qed
  qed
  have "golden_ratio ^ h \<le> real (fib (h + 2))" by (rule golden_ratio_fib)
  also have "\<dots> \<le> real n + 2" using f by linarith
  finally have p: "golden_ratio ^ h \<le> real n + 2" .
  have lg: "0 < log 2 golden_ratio" using golden_ratio_gt1 by simp
  have "log 2 (golden_ratio ^ h) \<le> log 2 (real n + 2)"
    using p golden_ratio_gt1 by (subst log_le_cancel_iff) auto
  then have m: "real h * log 2 golden_ratio \<le> log 2 (real n + 2)"
    using golden_ratio_gt1 by (simp add: log_nat_power)
  then have b1: "real h \<le> log 2 (real n + 2) / log 2 golden_ratio"
    using lg by (simp add: pos_le_divide_eq)
  have "real h * (34 / 49) \<le> real h * log 2 golden_ratio"
    using log2_golden_ratio by (intro mult_left_mono) auto
  then have b2: "real h \<le> 49 / 34 * log 2 (real n + 2)" using m by simp
  have "real_of_int (root_height t) = real h" using hn by (simp add: h_def)
  then show ?thesis using t(1) hn f b1 b2 unfolding n_def h_def by auto
qed

text \<open>
  Four increasing keys give a tree of height 3.
\<close>

theorem height_logarithmic_witness:
  "distinct [''a'', ''b'', ''c'', ''d'']
   \<and> InsertAll False None [''a'', ''b'', ''c'', ''d'']
       = Inr (Some (Node () 3 (Node () 1 Null ''a'' Null) ''b''
                      (Node () 2 Null ''c'' (Node () 1 Null ''d'' Null))))
   \<and> root_height (Some (Node () 3 (Node () 1 Null ''a'' Null) ''b''
                      (Node () 2 Null ''c'' (Node () 1 Null ''d'' Null)))) = 3
   \<and> fib (nat (root_height (Some (Node () 3 (Node () 1 Null ''a'' Null) ''b''
                      (Node () 2 Null ''c'' (Node () 1 Null ''d'' Null))))) + 2)
       \<le> length [''a'', ''b'', ''c'', ''d''] + 1
   \<and> real_of_int (root_height (Some (Node () 3 (Node () 1 Null ''a'' Null) ''b''
                      (Node () 2 Null ''c'' (Node () 1 Null ''d'' Null)))))
       \<le> 49 / 34 * log 2 (real (length [''a'', ''b'', ''c'', ''d'']) + 2)"
proof -
  let ?ks = "[''a'', ''b'', ''c'', ''d'']"
  let ?T = "Some (Node () 3 (Node () 1 Null ''a'' Null) ''b''
                      (Node () 2 Null ''c'' (Node () 1 Null ''d'' Null)))"
  have d: "distinct ?ks" by simp
  have b: "InsertAll False None ?ks = Inr ?T"
    by (simp add: avl_eval)
  from height_logarithmic [OF d, of False] obtain t where
    t: "InsertAll False None ?ks = Inr t"
      "fib (nat (root_height t) + 2) \<le> length ?ks + 1"
      "real_of_int (root_height t) \<le> 49 / 34 * log 2 (real (length ?ks) + 2)"
    by blast
  have t_eq: "t = ?T" using t(1) unfolding b by simp
  have rh: "root_height ?T = 3" by (simp add: root_height_def)
  show ?thesis using d b rh t(2,3) unfolding t_eq by blast
qed

lemma sorted_snoc_iff:
  "sorted (xs @ y # ys) \<longleftrightarrow> sorted xs \<and> (xs \<noteq> [] \<longrightarrow> last xs \<le> y) \<and> sorted (y # ys)"
proof (cases "xs = []")
  case True
  then show ?thesis by simp
next
  case False
  then obtain zs z where xs: "xs = zs @ [z]" by (metis rev_exhaust)
  have "x \<le> w" if "\<forall>x\<in>set zs. x \<le> z" "z \<le> y" "\<forall>x\<in>set ys. y \<le> x" "x \<in> set zs" "w \<in> set ys"
    for x w
  proof -
    have "x \<le> z" "y \<le> w" using that by auto
    then show ?thesis using that(2) by simp
  qed
  then show ?thesis unfolding xs by (auto simp: sorted_append)
qed

lemma checker_ok_Null: "checker_ok Null p"
  by (cases p) (auto simp: checker_ok_def refcounts_positive_def prev_list_def)

lemma checker_ok_Node:
  "checker_ok (Node rc h l v r) p \<longleftrightarrow>
     rc \<ge> 1 \<and> checker_ok l p
     \<and> (case (if inorder l = [] then p else Some (last (inorder l))) of None \<Rightarrow> True | Some q \<Rightarrow> q \<le> v)
     \<and> checker_ok r (Some v)
     \<and> h = max (HeightOf l) (HeightOf r) + 1 \<and> \<bar>BalanceOf l r\<bar> < 2"
proof -
  have s: "sorted (prev_list p @ inorder l @ v # inorder r) \<longleftrightarrow>
      sorted (prev_list p @ inorder l)
      \<and> (case (if inorder l = [] then p else Some (last (inorder l))) of None \<Rightarrow> True | Some q \<Rightarrow> q \<le> v)
      \<and> sorted (v # inorder r)"
    using sorted_snoc_iff[of "prev_list p @ inorder l" v "inorder r"]
    by (cases p) (auto simp: prev_list_def)
  show ?thesis
    unfolding checker_ok_def using s
    by (auto simp: refcounts_positive_def BalanceOf_def prev_list_def)
qed

lemma Checker_Rec_eq:
  "Checker_Rec nd n d ck =
     (if checker_ok n (prev_seen ck) then Inr (HeightOf n, checker_after ck n d)
      else Inl (validation_failure nd))"
proof (induction n arbitrary: d ck)
  case Null
  then show ?case by (simp add: checker_ok_Null checker_after_def)
next
  case (Node rc h l v r)
  define ck1 where "ck1 = ck\<lparr>total_height := total_height ck + d, node_count := node_count ck + 1\<rparr>"
  define ck2 where "ck2 = checker_after ck1 l (d + 1)"
  define ck2' where "ck2' = ck2\<lparr>prev_seen := Some v\<rparr>"
  define ck3 where "ck3 = checker_after ck2' r (d + 1)"
  have p1: "prev_seen ck1 = prev_seen ck" by (simp add: ck1_def)
  have p2: "prev_seen ck2 = (if inorder l = [] then prev_seen ck else Some (last (inorder l)))"
    by (simp add: ck2_def checker_after_def p1)
  have p2': "prev_seen ck2' = Some v" by (simp add: ck2'_def)
  have ck3: "ck3 = checker_after ck (Node rc h l v r) d"
    by (simp add: ck3_def ck2'_def ck2_def ck1_def checker_after_def)
  have unfold: "Checker_Rec nd (Node rc h l v r) d ck =
     bind_result (assert nd (rc > 0)) (\<lambda>_.
      if rc < 1 then Inl Aborted else
      bind_result (Checker_Rec nd l (d + 1) ck1) (\<lambda>(left_height, c2).
      bind_result
        (case prev_seen c2 of
           None \<Rightarrow> Inr ()
         | Some p \<Rightarrow> bind_result (assert nd (v \<ge> p)) (\<lambda>_. if v < p then Inl Aborted else Inr ()))
        (\<lambda>_.
      bind_result (Checker_Rec nd r (d + 1) (c2\<lparr>prev_seen := Some v\<rparr>)) (\<lambda>(right_height, c3).
      let expected_height = max left_height right_height + 1 in
      bind_result (assert nd (expected_height = h)) (\<lambda>_.
      if expected_height \<noteq> h then Inl Aborted else
      let balance = BalanceOf l r in
      bind_result (assert nd (\<bar>balance\<bar> < 2)) (\<lambda>_.
      if \<bar>balance\<bar> \<ge> 2 then Inl Aborted else
      Inr (h, c3)))))))"
    by (simp add: ck1_def Let_def)
  show ?case
  proof (cases "rc \<ge> 1")
    case False
    then show ?thesis unfolding unfold
      by (cases nd) (auto simp: checker_ok_Node validation_failure_def assert_def)
  next
    case rc: True
    show ?thesis
    proof (cases "checker_ok l (prev_seen ck)")
      case False
      then show ?thesis unfolding unfold using rc
        by (simp add: Node.IH(1) p1 checker_ok_Node assert_def)
    next
      case okl: True
      have l: "Checker_Rec nd l (d + 1) ck1 = Inr (HeightOf l, ck2)"
        using okl by (simp add: Node.IH(1) p1 ck2_def)
      show ?thesis
      proof (cases "case prev_seen ck2 of None \<Rightarrow> True | Some q \<Rightarrow> q \<le> v")
        case False
        then obtain q where q: "prev_seen ck2 = Some q" "\<not> q \<le> v"
          by (auto split: option.splits)
        have "(case prev_seen ck2 of
           None \<Rightarrow> Inr ()
         | Some p \<Rightarrow> bind_result (assert nd (v \<ge> p)) (\<lambda>_. if v < p then Inl Aborted else Inr ()))
           = Inl (validation_failure nd)"
          using q by (cases nd) (auto simp: assert_def validation_failure_def)
        moreover have "\<not> checker_ok (Node rc h l v r) (prev_seen ck)"
          using q unfolding checker_ok_Node p2[symmetric] by simp
        ultimately show ?thesis unfolding unfold using rc l
          by (simp add: assert_def)
      next
        case ord: True
        have o: "(case prev_seen ck2 of
           None \<Rightarrow> Inr ()
         | Some p \<Rightarrow> bind_result (assert nd (v \<ge> p)) (\<lambda>_. if v < p then Inl Aborted else Inr ())) = Inr ()"
          using ord by (auto simp: assert_def split: option.splits)
        show ?thesis
        proof (cases "checker_ok r (Some v)")
          case False
          then show ?thesis unfolding unfold using rc l o
            by (simp add: Node.IH(2) checker_ok_Node assert_def)
        next
          case okr: True
          have r: "Checker_Rec nd r (d + 1) (ck2\<lparr>prev_seen := Some v\<rparr>) = Inr (HeightOf r, ck3)"
            using okr by (simp add: Node.IH(2) ck3_def ck2'_def)
          show ?thesis
          proof (cases "h = max (HeightOf l) (HeightOf r) + 1 \<and> \<bar>BalanceOf l r\<bar> < 2")
            case False
            then show ?thesis unfolding unfold using rc l o r
              by (cases nd) (auto simp: checker_ok_Node validation_failure_def assert_def Let_def)
          next
            case True
            then have "checker_ok (Node rc h l v r) (prev_seen ck)"
              using rc okl ord okr by (simp add: checker_ok_Node p2)
            then show ?thesis unfolding unfold using rc l o r True
              by (simp add: assert_def Let_def ck3)
          qed
        qed
      qed
    qed
  qed
qed

lemma DoValidate_eq:
  "DoValidate nd n =
     (if validator_accepts n
      then Inr (HeightOf n, checker_after \<lparr>prev_seen = None, total_height = 0, node_count = 0\<rparr> n 1)
      else Inl (validation_failure nd))"
  unfolding DoValidate_def Checker_Rec_eq
  by (auto simp: checker_ok_def validator_accepts_def prev_list_def avl_iff)

text \<open>
  C4 (amended). \<open>Validate\<close> walks the tree it is given, whatever its shape, and stops the
  process (a failed \<open>assert\<close> in a debug build, \<open>abort()\<close> with \<open>NDEBUG\<close>) exactly when some
  visited node has a refcount below 1, or some key is smaller than its in-order
  predecessor, or some stored height differs from the recomputed one, or some node is out
  of balance; equal adjacent keys are accepted. On an accepted tree the stored height is
  the height of the shape. \<open>Validate\<close> returns nothing but success or failure (the tree
  is not changed), and calling it again gives the same outcome.
\<close>

theorem Validate_accepts_iff:
  "Validate ndebug tree =
     (case tree of
        None \<Rightarrow> Inr ()
      | Some n \<Rightarrow> if validator_accepts n then Inr () else Inl (validation_failure ndebug))
   \<and> (\<forall>n. tree = Some n \<and> validator_accepts n \<longrightarrow> HeightOf n = int (shape_height n))
   \<and> bind_result (Validate ndebug tree) (\<lambda>_. Validate ndebug tree) = Validate ndebug tree"
proof -
  have 1: "Validate ndebug tree =
     (case tree of
        None \<Rightarrow> Inr ()
      | Some n \<Rightarrow> if validator_accepts n then Inr () else Inl (validation_failure ndebug))"
    by (simp add: Validate_def DoValidate_eq split: option.splits)
  have 2: "HeightOf n = int (shape_height n)" if "validator_accepts n" for n :: "int node"
    using that by (simp add: validator_accepts_def heights_stored_shape)
  have 3: "bind_result (Validate ndebug tree) (\<lambda>_. Validate ndebug tree) = Validate ndebug tree"
    by (cases "Validate ndebug tree") auto
  show ?thesis using 1 2 3 by blast
qed

lemmas validate_eval = validator_accepts_def refcounts_positive_def validation_failure_def

text \<open>
  A valid tree passes; a refcount of 0, a key out of order and an unbalanced node each stop
  the process.
\<close>

theorem Validate_accepts_iff_witness:
  "validator_accepts (Node 1 2 (Node 1 1 Null ''a'' Null) ''b'' Null)
   \<and> Validate False (Some (Node 1 2 (Node 1 1 Null ''a'' Null) ''b'' Null)) = Inr ()
   \<and> HeightOf (Node (1::int) 2 (Node 1 1 Null ''a'' Null) ''b'' Null)
       = int (shape_height (Node (1::int) 2 (Node 1 1 Null ''a'' Null) ''b'' Null))
   \<and> Validate False (Some (Node 1 2 (Node 0 1 Null ''a'' Null) ''b'' Null)) = Inl AssertionFailed
   \<and> Validate True (Some (Node 1 2 (Node 0 1 Null ''a'' Null) ''b'' Null)) = Inl Aborted
   \<and> Validate True (Some (Node 1 2 (Node 1 1 Null ''c'' Null) ''b'' Null)) = Inl Aborted
   \<and> Validate True (Some (Node 1 3 (Node 1 2 (Node 1 1 Null ''a'' Null) ''b'' Null) ''c'' Null)) = Inl Aborted"
proof -
  have a: "validator_accepts (Node 1 2 (Node 1 1 Null ''a'' Null) ''b'' Null)"
    by (simp add: validate_eval)
  have b: "\<not> validator_accepts (Node 1 2 (Node 0 1 Null ''a'' Null) ''b'' Null)"
    by (simp add: validate_eval)
  have c: "\<not> validator_accepts (Node 1 2 (Node 1 1 Null ''c'' Null) ''b'' Null)"
    by (simp add: validate_eval)
  have d: "\<not> validator_accepts (Node 1 3 (Node 1 2 (Node 1 1 Null ''a'' Null) ''b'' Null) ''c'' Null)"
    by (simp add: validate_eval)
  show ?thesis
    using a b c d
      Validate_accepts_iff [of False "Some (Node 1 2 (Node 1 1 Null ''a'' Null) ''b'' Null)"]
      Validate_accepts_iff [of False "Some (Node 1 2 (Node 0 1 Null ''a'' Null) ''b'' Null)"]
      Validate_accepts_iff [of True "Some (Node 1 2 (Node 0 1 Null ''a'' Null) ''b'' Null)"]
      Validate_accepts_iff [of True "Some (Node 1 2 (Node 1 1 Null ''c'' Null) ''b'' Null)"]
      Validate_accepts_iff [of True "Some (Node 1 3 (Node 1 2 (Node 1 1 Null ''a'' Null) ''b'' Null) ''c'' Null)"]
    by (simp add: validation_failure_def)
qed

text \<open>
  C4 as stated fails on "strictly increasing": a tree holding the key \<open>a\<close> twice passes
  \<open>Validate\<close> in both builds although its in-order key sequence is not strictly
  increasing.
\<close>

theorem Validate_equal_keys_counterexample:
  "Validate False (Some (Node 1 2 Null ''a'' (Node 1 1 Null ''a'' Null))) = Inr ()
   \<and> Validate True (Some (Node 1 2 Null ''a'' (Node 1 1 Null ''a'' Null))) = Inr ()
   \<and> inorder (Node (1::int) 2 Null ''a'' (Node 1 1 Null ''a'' Null)) = [''a'', ''a'']
   \<and> \<not> sorted_wrt (<) (inorder (Node (1::int) 2 Null ''a'' (Node 1 1 Null ''a'' Null)))"
  by (simp add: Validate_def DoValidate_def assert_def BalanceOf_def)

lemma inorder_map_node [simp]: "inorder (map_node f n) = inorder n"
  by (induction n) auto

lemma HeightOf_map_node [simp]: "HeightOf (map_node f n) = HeightOf n"
  by (cases n) auto

lemma avl_map_node [simp]: "avl (map_node f n) = avl n"
  by (induction n) auto

text \<open>
  C9 (amended). Let \<open>k\<close> be a key already stored in a well-formed tree. With \<open>NDEBUG\<close> the
  call \<open>Insert(k)\<close> always returns. In either build, whenever it returns, the new tree holds
  the old keys and one more \<open>k\<close> (so at least two), is again an AVL tree with a
  non-decreasing in-order sequence, and passes \<open>Validate\<close> whatever refcounts \<open>\<ge> 1\<close> its
  nodes carry. At a node holding \<open>k\<close> the recursion goes right. (In a debug build the call
  can instead stop on an \<open>assert\<close> of \<open>mk2\<close> or \<open>mk3\<close>; see the counterexample.)
\<close>

theorem duplicate_insert:
  assumes "tree_inv t" "sorted (keys_of t)" "k \<in> set (keys_of t)"
  shows "(\<exists>n. Insert True t k = Inr (Some n))
    \<and> (\<forall>t'. Insert ndebug t k = Inr t' \<longrightarrow>
          mset (keys_of t') = add_mset k (mset (keys_of t))
        \<and> 2 \<le> count (mset (keys_of t')) k
        \<and> tree_inv t' \<and> sorted (keys_of t')
        \<and> (\<forall>s. forget_refcounts s = t' \<and> (\<forall>n. s = Some n \<longrightarrow> refcounts_positive n)
              \<longrightarrow> Validate ndebug' s = Inr ()))
    \<and> (\<forall>rc h l r. Rec ndebug (Node rc h l k r) k
          = bind_result (Rec ndebug r k) (\<lambda>r'. MakeAndRebalance ndebug l k r'))"
proof -
  from Insert_inv[OF assms(1), of True k] assms(2) obtain n where
    n: "Insert True t k = Inr (Some n)" "tree_inv (Some n)"
      "mset (keys_of (Some n)) = add_mset k (mset (keys_of t))" "sorted (keys_of (Some n))"
    by auto
  have c: "2 \<le> count (mset (keys_of (Some n))) k"
    using assms(3) unfolding n(3) by (simp add: count_mset_0_iff Suc_le_eq)
  have v: "Validate ndebug' s = Inr ()"
    if "forget_refcounts s = Some n" "\<forall>m. s = Some m \<longrightarrow> refcounts_positive m" for s
  proof -
    from that(1) obtain m where m: "s = Some m" "map_node (\<lambda>_. ()) m = n"
      by (auto simp: forget_refcounts_def)
    have "avl m" "sorted (inorder m)"
      using n(2,4) m(2)[symmetric] by (simp_all add: tree_inv_def keys_of_def)
    then have "validator_accepts m"
      using that(2) m(1) by (simp add: validator_accepts_def avl_iff)
    then show ?thesis by (simp add: m(1) Validate_def DoValidate_eq)
  qed
  have "t' = Some n" if "Insert ndebug t k = Inr t'" for t'
    using that n(1) by (cases ndebug) (auto dest: Insert_ndebug)
  then show ?thesis using n c v by auto
qed

text \<open>
  Inserting \<open>a\<close> into the tree that holds just \<open>a\<close>.
\<close>

theorem duplicate_insert_witness:
  "tree_inv (Some (new_leaf ''a'')) \<and> sorted (keys_of (Some (new_leaf ''a'')))
   \<and> ''a'' \<in> set (keys_of (Some (new_leaf ''a'')))
   \<and> Insert False (Some (new_leaf ''a'')) ''a'' = Inr (Some (Node () 2 Null ''a'' (Node () 1 Null ''a'' Null)))
   \<and> keys_of (Some (Node () 2 Null ''a'' (Node () 1 Null ''a'' Null))) = [''a'', ''a'']
   \<and> Validate False (Some (Node 1 2 Null ''a'' (Node 1 1 Null ''a'' Null))) = Inr ()"
proof -
  have h: "tree_inv (Some (new_leaf ''a''))" "sorted (keys_of (Some (new_leaf ''a'')))"
    "''a'' \<in> set (keys_of (Some (new_leaf ''a'')))"
    by (simp_all add: tree_inv_def keys_of_def new_leaf_def)
  have i: "Insert False (Some (new_leaf ''a'')) ''a'' = Inr (Some (Node () 2 Null ''a'' (Node () 1 Null ''a'' Null)))"
    by (simp add: avl_eval)
  have f: "forget_refcounts (Some (Node 1 2 Null ''a'' (Node 1 1 Null ''a'' Null)))
     = Some (Node () 2 Null ''a'' (Node () 1 Null ''a'' Null))"
    by (simp add: forget_refcounts_def)
  have r: "\<forall>n. Some (Node 1 2 Null ''a'' (Node 1 1 Null ''a'' Null)) = Some n \<longrightarrow> refcounts_positive n"
    by (simp add: refcounts_positive_def)
  from duplicate_insert [OF h, of False False] i f r
  have "Validate False (Some (Node 1 2 Null ''a'' (Node 1 1 Null ''a'' Null))) = Inr ()"
    by blast
  then show ?thesis using h i by (simp add: keys_of_def)
qed

text \<open>
  C9 as stated fails in a debug build: after \<open>a\<close> has been inserted twice, a third
  \<open>Insert(a)\<close> rotates and stops on \<open>assert(k1 < k2)\<close> in \<open>mk2\<close>; with \<open>NDEBUG\<close> the same
  call returns a tree holding \<open>a\<close> three times.
\<close>

theorem duplicate_insert_debug_counterexample:
  "InsertAll False None [''a'', ''a''] = Inr (Some (Node () 2 Null ''a'' (Node () 1 Null ''a'' Null)))
   \<and> ''a'' \<in> set (keys_of (Some (Node () 2 Null ''a'' (Node () 1 Null ''a'' Null))))
   \<and> Insert False (Some (Node () 2 Null ''a'' (Node () 1 Null ''a'' Null))) ''a'' = Inl AssertionFailed
   \<and> Insert True (Some (Node () 2 Null ''a'' (Node () 1 Null ''a'' Null))) ''a''
       = Inr (Some (Node () 2 (Node () 1 Null ''a'' Null) ''a'' (Node () 1 Null ''a'' Null)))"
  by (simp add: avl_eval)

section \<open>The claim about the crit-bit tree\<close>

lemma mismatch_same: "mismatch k k = length k"
  by (induction k) auto

lemma find_crit_bit_same: "find_crit_bit k k = None"
  by (simp add: find_crit_bit_def mismatch_same)

lemma descend_path: "descend n key (p @ q) = (p @ fst (descend n key q), snd (descend n key q))"
  by (induction n arbitrary: q) (auto simp: Let_def)

lemma descend_Nil: "descend n key p = (p @ fst (descend n key []), snd (descend n key []))"
  using descend_path[of n key p "[]"] by simp

lemma walk_up_le: "walk_up p c \<le> length p"
  by (induction p c rule: walk_up.induct) auto

lemma descend_replace_at:
  assumes "d \<le> length (fst (descend n key []))"
    and "\<And>s. snd (descend (f s) key []) = k'"
  shows "snd (descend (replace_at n (fst (descend n key [])) d f) key []) = k'"
  using assms(1)
proof (induction n arbitrary: d)
  case (ExternalNode k)
  then show ?case using assms(2) by simp
next
  case (InternalNode c n0 n1)
  show ?case
  proof (cases d)
    case 0
    then show ?thesis using assms(2) by simp
  next
    case (Suc m)
    let ?dir = "get_bit key c"
    let ?n = "if ?dir = 0 then n0 else n1"
    have p: "fst (descend (InternalNode c n0 n1) key []) = (c, ?dir) # fst (descend ?n key [])"
      using descend_Nil[of ?n key "[(c, ?dir)]"] by (simp add: Let_def)
    have m: "m \<le> length (fst (descend ?n key []))"
      using InternalNode.prems Suc unfolding p by simp
    show ?thesis
    proof (cases "?dir = 0")
      case True
      then show ?thesis
        using InternalNode.IH(1)[of m] m descend_Nil[of _ key "[(c, 0)]"]
        unfolding p Suc by (simp add: Let_def)
    next
      case False
      then show ?thesis
        using InternalNode.IH(2)[of m] m descend_Nil[of _ key "[(c, ?dir)]"]
        unfolding p Suc by (simp add: Let_def)
    qed
  qed
qed

lemma descend_new_internal_node:
  "snd (descend (new_internal_node c (get_bit key c) key s) key []) = key"
  by (simp add: new_internal_node_def Let_def)

lemma CritBit_Insert_found:
  "snd (descend n key []) = key \<Longrightarrow> CritBit_Insert (Some n) key = Some n"
  by (auto simp: CritBit_Insert_def find_crit_bit_same split: prod.splits)

lemma CritBit_Insert_idem: "CritBit_Insert (CritBit_Insert t k) k = CritBit_Insert t k"
proof (cases t)
  case None
  then show ?thesis by (simp add: CritBit_Insert_def find_crit_bit_same)
next
  case (Some n)
  obtain path e where d: "descend n k [] = (path, e)" by (cases "descend n k []")
  show ?thesis
  proof (cases "find_crit_bit k e")
    case None
    then show ?thesis using Some d by (simp add: CritBit_Insert_def)
  next
    case (Some c)
    let ?n' = "replace_at n path (walk_up (rev path) c) (new_internal_node c (get_bit k c) k)"
    have i: "CritBit_Insert t k = Some ?n'"
      using \<open>t = Some n\<close> d Some by (simp add: CritBit_Insert_def Let_def)
    have "walk_up (rev path) c \<le> length (fst (descend n k []))"
      using walk_up_le[of "rev path" c] d by simp
    from descend_replace_at[OF this, of "new_internal_node c (get_bit k c) k" k, OF descend_new_internal_node]
    have "snd (descend ?n' k []) = k" using d by simp
    then show ?thesis unfolding i by (rule CritBit_Insert_found)
  qed
qed

subsection \<open>Bits of keys and the crit-bit of two keys\<close>

lemma unat_drop_bit_and_1: "unat (drop_bit n (w :: 8 word) AND 1) = (if bit w n then 1 else 0)"
proof -
  have "drop_bit n w AND 1 = of_bool (odd (drop_bit n w))"
    by (simp add: and_one_eq mod_2_eq_odd)
  also have "odd (drop_bit n w) = bit w n"
    by (rule bit_iff_odd_drop_bit[symmetric])
  finally show ?thesis by (cases "bit w n") simp_all
qed

lemma get_bit_ebyte: "get_bit k i = (if bit (ebyte k (i div 8)) (7 - i mod 8) then 1 else 0)"
  unfolding get_bit_def ebyte_def Let_def unat_drop_bit_and_1
  by (cases "i div 8 < length k") simp_all

lemma clz_list: "[7, 6, 5, 4, 3, 2, 1, 0] = map (\<lambda>i. 7 - i) [0..<8::nat]"
  by code_simp

lemma countl_zero_nonzero:
  fixes w :: "8 word"
  assumes "w \<noteq> 0"
  shows "countl_zero w < 8 \<and> (\<forall>i < countl_zero w. \<not> bit w (7 - i)) \<and> bit w (7 - countl_zero w)"
proof -
  let ?L = "map (\<lambda>i. 7 - i) [0..<8::nat]"
  let ?P = "\<lambda>i. \<not> bit w i"
  have cz: "countl_zero w = length (takeWhile ?P ?L)"
    unfolding countl_zero_def clz_list ..
  from assms obtain n where n: "bit w n" by (auto simp: bit_eq_iff)
  then have n8: "n < 8" by (auto dest: bit_imp_le_length)
  have "7 - (7 - n) = n" using n8 by simp
  moreover have "7 - n \<in> set [0..<8]" by simp
  ultimately have "n \<in> set ?L" unfolding set_map by (metis imageI)
  then have ex: "\<exists>x\<in>set ?L. \<not> ?P x" using n by blast
  have "length (takeWhile ?P ?L) \<noteq> length ?L"
  proof
    assume "length (takeWhile ?P ?L) = length ?L"
    then have "takeWhile ?P ?L = ?L"
      by (metis takeWhile_eq_take take_all order_refl)
    then have "\<forall>x\<in>set ?L. ?P x" by (simp only: takeWhile_eq_all_conv)
    with ex show False by blast
  qed
  moreover have "length (takeWhile ?P ?L) \<le> length ?L" by (rule length_takeWhile_le)
  ultimately have lt: "length (takeWhile ?P ?L) < length ?L" by linarith
  then have j8: "countl_zero w < 8" by (simp add: cz)
  have a: "\<not> bit w (7 - i)" if "i < countl_zero w" for i
  proof -
    have il: "i < length (takeWhile ?P ?L)" using that unfolding cz .
    then have "takeWhile ?P ?L ! i \<in> set (takeWhile ?P ?L)" by (rule nth_mem)
    then have "?P (takeWhile ?P ?L ! i)" by (rule set_takeWhileD[THEN conjunct2])
    then have "?P (?L ! i)" using takeWhile_nth[OF il] by simp
    moreover have "i < 8" using that j8 by simp
    ultimately show ?thesis by simp
  qed
  have "\<not> ?P (?L ! length (takeWhile ?P ?L))" using lt by (rule nth_length_takeWhile)
  then have "bit w (7 - countl_zero w)" using j8 by (simp add: cz)
  then show ?thesis using j8 a by blast
qed

lemma countl_zero_props:
  fixes x y :: "8 word"
  assumes "x \<noteq> y"
  shows "countl_zero (x XOR y) < 8
    \<and> (\<forall>i < countl_zero (x XOR y). bit x (7 - i) = bit y (7 - i))
    \<and> bit x (7 - countl_zero (x XOR y)) \<noteq> bit y (7 - countl_zero (x XOR y))"
proof -
  have "x XOR y \<noteq> 0"
  proof
    assume "x XOR y = 0"
    then have "bit (x XOR y) n = False" for n by simp
    then have "bit x n = bit y n" for n by (simp add: bit_xor_iff)
    then show False using assms by (simp add: bit_eq_iff)
  qed
  from countl_zero_nonzero[OF this] show ?thesis by (simp add: bit_xor_iff)
qed

lemma of_char_word_inj: "(of_char c :: 8 word) = of_char d \<longleftrightarrow> c = d"
proof -
  have lt: "(of_char x :: nat) < 2 ^ 8" for x using nat_of_char_less_256[of x] by simp
  have "(of_nat (of_char c) :: 8 word) = of_nat (of_char d) \<longleftrightarrow> (of_char c :: nat) = of_char d"
    using lt[of c] lt[of d] by (simp add: word_of_nat_eq_iff take_bit_nat_eq_self)
  then show ?thesis by (simp add: of_nat_of_char)
qed

lemma of_char_word_0: "(of_char c :: 8 word) = 0 \<longleftrightarrow> c = CHR 0x00"
  using of_char_word_inj[of c "CHR 0x00"] by simp

lemma mismatch_le: "mismatch a b \<le> min (length a) (length b)"
  by (induction a b rule: mismatch.induct) auto

lemma mismatch_prefix: "j < mismatch a b \<Longrightarrow> a ! j = b ! j"
  by (induction a b arbitrary: j rule: mismatch.induct) (auto simp: nth_Cons' split: if_splits)

lemma mismatch_differs:
  "mismatch a b < min (length a) (length b) \<Longrightarrow> a ! mismatch a b \<noteq> b ! mismatch a b"
  by (induction a b rule: mismatch.induct) (auto split: if_splits)

lemma mismatch_full:
  assumes "mismatch a b = min (length a) (length b)" and "length a = length b"
  shows "a = b"
  using assms by (intro nth_equalityI) (auto intro: mismatch_prefix)

lemma find_crit_bit_None_iff: "find_crit_bit a b = None \<longleftrightarrow> a = b"
proof
  assume "find_crit_bit a b = None"
  then have "mismatch a b = min (length a) (length b) \<and> length a = length b"
    by (simp add: find_crit_bit_def Let_def split: if_splits)
  then show "a = b" using mismatch_full by blast
qed (simp add: find_crit_bit_same)

lemma ebyte_prefix: "j < mismatch a b \<Longrightarrow> ebyte a j = ebyte b j"
  using mismatch_le[of a b] mismatch_prefix[of j a b] by (simp add: ebyte_def byte_at_def)

lemma ebyte_nonzero: "null_free a \<Longrightarrow> j < length a \<Longrightarrow> ebyte a j \<noteq> 0"
  by (auto simp: ebyte_def byte_at_def of_char_word_0 null_free_def dest: nth_mem)

lemma ebyte_differs:
  assumes "null_free a" "null_free b" "a \<noteq> b"
  shows "ebyte a (mismatch a b) \<noteq> ebyte b (mismatch a b)"
proof (cases "mismatch a b < min (length a) (length b)")
  case True
  then show ?thesis using mismatch_differs[of a b]
    by (simp add: ebyte_def byte_at_def of_char_word_inj)
next
  case False
  then have m: "mismatch a b = min (length a) (length b)" using mismatch_le[of a b] by linarith
  then have ne: "length a \<noteq> length b" using assms(3) mismatch_full by blast
  show ?thesis
  proof (cases "length a < length b")
    case True
    then have "ebyte a (mismatch a b) = 0" "ebyte b (mismatch a b) \<noteq> 0"
      using m ebyte_nonzero[OF assms(2), of "length a"] by (simp_all add: ebyte_def)
    then show ?thesis by simp
  next
    case False
    then have "length b < length a" using ne by simp
    then have "ebyte b (mismatch a b) = 0" "ebyte a (mismatch a b) \<noteq> 0"
      using m ebyte_nonzero[OF assms(1), of "length b"] by (simp_all add: ebyte_def)
    then show ?thesis by simp
  qed
qed

lemma find_crit_bit_ebyte:
  assumes "a \<noteq> b"
  shows "find_crit_bit a b =
    Some (mismatch a b * 8 + countl_zero (ebyte a (mismatch a b) XOR ebyte b (mismatch a b)))"
proof (cases "mismatch a b < min (length a) (length b)")
  case True
  then show ?thesis by (simp add: find_crit_bit_def Let_def ebyte_def)
next
  case False
  then have m: "mismatch a b = min (length a) (length b)" using mismatch_le[of a b] by linarith
  then have ne: "length a \<noteq> length b" using assms mismatch_full by blast
  show ?thesis
  proof (cases "length a < length b")
    case True
    then show ?thesis using m by (simp add: find_crit_bit_def Let_def ebyte_def)
  next
    case False
    then have "length b < length a" using ne by simp
    then show ?thesis using m by (simp add: find_crit_bit_def Let_def ebyte_def)
  qed
qed

text \<open>The crit-bit of two different null-free keys: they agree on every bit before it and differ there.\<close>

lemma find_crit_bit_Some:
  assumes nf: "null_free a" "null_free b" and c: "find_crit_bit a b = Some c"
  shows "(\<forall>i<c. get_bit a i = get_bit b i) \<and> get_bit a c \<noteq> get_bit b c"
proof -
  let ?p = "mismatch a b"
  let ?x = "ebyte a ?p" and ?y = "ebyte b ?p"
  let ?j = "countl_zero (?x XOR ?y)"
  have ne: "a \<noteq> b" using c find_crit_bit_same by auto
  have ceq: "c = ?p * 8 + ?j" using find_crit_bit_ebyte[OF ne] c by simp
  have xy: "?x \<noteq> ?y" using ebyte_differs[OF nf ne] .
  note cz = countl_zero_props[OF xy]
  have j8: "?j < 8" using cz by blast
  have "c div 8 = ?p" "c mod 8 = ?j" using j8 unfolding ceq by simp_all
  then have d: "get_bit a c \<noteq> get_bit b c"
    using cz by (simp add: get_bit_ebyte)
  have "get_bit a i = get_bit b i" if "i < c" for i
  proof (cases "i div 8 < ?p")
    case True
    then show ?thesis by (simp add: get_bit_ebyte ebyte_prefix)
  next
    case False
    define p where "p = ?p"
    define j where "j = ?j"
    have f: "\<not> i div 8 < p" "i < p * 8 + j" "j < 8"
      using False that j8 unfolding ceq p_def j_def by simp_all
    have "\<not> i < p * 8" using f(1) less_mult_imp_div_less[of i p 8] by blast
    then obtain r where r: "i = p * 8 + r" using le_Suc_ex[of "p * 8" i] by auto
    then have "r < j" using f(2) by simp
    then have "i div 8 = p \<and> i mod 8 < j" using f(3) unfolding r by simp
    then have "i div 8 = ?p" "i mod 8 < ?j" unfolding p_def j_def by simp_all
    then show ?thesis using cz by (simp add: get_bit_ebyte)
  qed
  then show ?thesis using d by blast
qed

lemma get_bit_cases: "get_bit k i = 0 \<or> get_bit k i = 1"
  by (simp add: get_bit_ebyte)

subsection \<open>The invariant and the descent\<close>

lemma descend_Internal:
  "descend (InternalNode c n0 n1) key [] =
     ((c, get_bit key c) # fst (descend (if get_bit key c = 0 then n0 else n1) key []),
      snd (descend (if get_bit key c = 0 then n0 else n1) key []))"
  using descend_Nil[of "if get_bit key c = 0 then n0 else n1" key "[(c, get_bit key c)]"]
  by (simp add: Let_def)

lemma descend_in_keys: "snd (descend n key []) \<in> cb_keys n"
  by (induction n) (simp_all add: descend_Internal del: descend.simps(2))

lemma descend_stored: "cb_inv n \<Longrightarrow> key \<in> cb_keys n \<Longrightarrow> snd (descend n key []) = key"
proof (induction n)
  case (ExternalNode k)
  then show ?case by simp
next
  case (InternalNode c n0 n1)
  show ?case
  proof (cases "key \<in> cb_keys n0")
    case True
    then have "get_bit key c = 0" using InternalNode.prems by simp
    then show ?thesis using InternalNode True by (simp add: descend_Internal del: descend.simps(2))
  next
    case False
    then have k1: "key \<in> cb_keys n1" using InternalNode.prems by simp
    then have "get_bit key c = 1" using InternalNode.prems by simp
    then show ?thesis using InternalNode k1 by (simp add: descend_Internal del: descend.simps(2))
  qed
qed

lemma path_crit_bits: "fst ` set (fst (descend n key [])) \<subseteq> crit_bits n"
  by (induction n) (auto simp: descend_Internal simp del: descend.simps(2))

lemma walk_up_snoc:
  "walk_up (xs @ [(c', d)]) c =
     (if walk_up xs c \<noteq> 0 then Suc (walk_up xs c) else if c' < c then 1 else 0)"
  by (induction xs c rule: walk_up.induct) auto

lemma walk_up_zero: "\<forall>x \<in> set xs. c \<le> fst x \<Longrightarrow> walk_up xs c = 0"
  by (induction xs c rule: walk_up.induct) auto

lemma replace_at_top_down:
  assumes "cb_inv n"
  shows "replace_at n (fst (descend n key [])) (walk_up (rev (fst (descend n key []))) c)
           (new_internal_node c (get_bit key c) key) = cb_ins c key n"
  using assms
proof (induction n)
  case (ExternalNode e)
  then show ?case by simp
next
  case (InternalNode c' n0 n1)
  let ?ch = "if get_bit key c' = 0 then n0 else n1"
  let ?p = "fst (descend ?ch key [])"
  let ?f = "new_internal_node c (get_bit key c) key"
  have inv: "cb_inv ?ch" using InternalNode.prems by simp
  have IH: "replace_at ?ch ?p (walk_up (rev ?p) c) ?f = cb_ins c key ?ch"
    using InternalNode.IH inv by (cases "get_bit key c' = 0") simp_all
  show ?case
  proof (cases "c' < c")
    case True
    then have w: "walk_up (rev ?p @ [(c', get_bit key c')]) c = Suc (walk_up (rev ?p) c)"
      by (simp add: walk_up_snoc)
    show ?thesis using True IH w
      by (cases "get_bit key c' = 0") (simp_all add: descend_Internal del: descend.simps(2))
  next
    case False
    have "\<forall>x \<in> set (rev ?p). c \<le> fst x"
    proof
      fix x assume "x \<in> set (rev ?p)"
      then have "fst x \<in> crit_bits ?ch" using path_crit_bits[of ?ch key] by auto
      then have "c' < fst x" using InternalNode.prems by (auto split: if_splits)
      then show "c \<le> fst x" using False by simp
    qed
    then have "walk_up (rev ?p) c = 0" by (rule walk_up_zero)
    then have w: "walk_up (rev ?p @ [(c', get_bit key c')]) c = 0"
      using False by (simp add: walk_up_snoc)
    show ?thesis using False w by (simp add: descend_Internal del: descend.simps(2))
  qed
qed

lemma cb_keys_new_internal_node [simp]:
  "cb_keys (new_internal_node c b key s) = insert key (cb_keys s)"
  by (auto simp: new_internal_node_def)

lemma crit_bits_new_internal_node [simp]:
  "crit_bits (new_internal_node c b key s) = insert c (crit_bits s)"
  by (auto simp: new_internal_node_def)

lemma cb_keys_cb_ins [simp]: "cb_keys (cb_ins c key n) = insert key (cb_keys n)"
  by (induction n) auto

lemma crit_bits_cb_ins [simp]: "crit_bits (cb_ins c key n) = insert c (crit_bits n)"
  by (induction n) auto

lemma agree_below_insert:
  assumes "agree_below c S" and "e \<in> S" and "\<forall>i<c. get_bit key i = get_bit e i"
  shows "agree_below c (insert key S)"
  unfolding agree_below_def
proof (intro ballI)
  fix k k' i
  assume k: "k \<in> insert key S" and k': "k' \<in> insert key S" and i: "i \<in> {0..<c}"
  have r: "get_bit x i = get_bit e i" if "x \<in> insert key S" for x
  proof (cases "x = key")
    case True
    then show ?thesis using assms(3) i by simp
  next
    case False
    then have "x \<in> S" using that by simp
    then show ?thesis using assms(1,2) i unfolding agree_below_def by blast
  qed
  show "get_bit k i = get_bit k' i" using r[OF k] r[OF k'] by simp
qed

lemma agree_below_mono: "agree_below c S \<Longrightarrow> c' \<le> c \<Longrightarrow> agree_below c' S"
proof -
  assume a: "agree_below c S" and le: "c' \<le> c"
  have "{0..<c'} \<subseteq> {0..<c}" using le by simp
  then show ?thesis using a unfolding agree_below_def by blast
qed

lemma agree_belowD:
  "agree_below c S \<Longrightarrow> k \<in> S \<Longrightarrow> k' \<in> S \<Longrightarrow> i < c \<Longrightarrow> get_bit k i = get_bit k' i"
proof -
  assume a: "agree_below c S" and k: "k \<in> S" "k' \<in> S" and "i < c"
  then have "i \<in> {0..<c}" by simp
  then show ?thesis using a k unfolding agree_below_def by blast
qed

lemma cb_inv_new_internal_node:
  assumes ag: "agree_below (Suc c) (cb_keys s)"
    and e: "e \<in> cb_keys s"
    and cr: "\<forall>x \<in> crit_bits s. c < x"
    and inv: "cb_inv s"
    and lo: "\<forall>i<c. get_bit key i = get_bit e i"
    and d: "get_bit key c \<noteq> get_bit e c"
  shows "cb_inv (new_internal_node c (get_bit key c) key s)"
proof -
  have same: "get_bit x c = get_bit e c" if "x \<in> cb_keys s" for x
    using agree_belowD[OF ag that e, of c] by simp
  have ab: "agree_below c (insert key (cb_keys s))"
    using agree_below_insert[OF agree_below_mono[OF ag] e lo] by simp
  show ?thesis
  proof (cases "get_bit key c = 0")
    case True
    then have "get_bit e c = 1" using d get_bit_cases[of e c] by auto
    then have "\<forall>x \<in> cb_keys s. get_bit x c = 1" using same by simp
    then show ?thesis using True inv cr ab
      by (simp add: new_internal_node_def)
  next
    case False
    then have k1: "get_bit key c = 1" using get_bit_cases[of key c] by auto
    then have "get_bit e c = 0" using d get_bit_cases[of e c] by auto
    then have "\<forall>x \<in> cb_keys s. get_bit x c = 0" using same by simp
    moreover have "cb_keys s \<union> {key} = insert key (cb_keys s)" by simp
    ultimately show ?thesis using k1 inv cr ab
      by (simp add: new_internal_node_def)
  qed
qed

lemma cb_ins_inv:
  assumes "cb_inv n"
    and "\<forall>i<c. get_bit key i = get_bit (snd (descend n key [])) i"
    and "get_bit key c \<noteq> get_bit (snd (descend n key [])) c"
  shows "cb_inv (cb_ins c key n)"
  using assms
proof (induction n)
  case (ExternalNode e)
  have lo: "\<forall>i<c. get_bit key i = get_bit e i" and df: "get_bit key c \<noteq> get_bit e c"
    using ExternalNode.prems(2,3) by simp_all
  have "agree_below (Suc c) (cb_keys (ExternalNode e))" by (simp add: agree_below_def)
  moreover have "e \<in> cb_keys (ExternalNode e)" by simp
  moreover have "\<forall>x \<in> crit_bits (ExternalNode e). c < x" by simp
  moreover have "cb_inv (ExternalNode e)" by simp
  ultimately have "cb_inv (new_internal_node c (get_bit key c) key (ExternalNode e))"
    using lo df by (rule cb_inv_new_internal_node)
  then show ?case by simp
next
  case (InternalNode c' n0 n1)
  define d where "d = get_bit key c'"
  define ch where "ch = (if d = 0 then n0 else n1)"
  define e where "e = snd (descend ch key [])"
  have de: "snd (descend (InternalNode c' n0 n1) key []) = e"
    unfolding e_def ch_def d_def by (simp add: descend_Internal del: descend.simps(2))
  have lo: "\<forall>i<c. get_bit key i = get_bit e i" and df: "get_bit key c \<noteq> get_bit e c"
    using InternalNode.prems(2,3) unfolding de by blast+
  have e_ch: "e \<in> cb_keys ch" unfolding e_def by (rule descend_in_keys)
  then have e_all: "e \<in> cb_keys n0 \<union> cb_keys n1" unfolding ch_def by (cases "d = 0") simp_all
  have inv0: "cb_inv n0" and inv1: "cb_inv n1"
    and b0: "\<forall>k \<in> cb_keys n0. get_bit k c' = 0" and b1: "\<forall>k \<in> cb_keys n1. get_bit k c' = 1"
    and ag: "agree_below c' (cb_keys n0 \<union> cb_keys n1)"
    and cr: "\<forall>x \<in> crit_bits n0 \<union> crit_bits n1. c' < x"
    using InternalNode.prems(1) by simp_all
  have d01: "d = 0 \<or> d = 1" unfolding d_def by (rule get_bit_cases)
  have e_bit: "get_bit e c' = d"
  proof (cases "d = 0")
    case True
    then have "e \<in> cb_keys n0" using e_ch unfolding ch_def by simp
    then show ?thesis using b0 True by simp
  next
    case False
    then have "e \<in> cb_keys n1" using e_ch unfolding ch_def by simp
    then show ?thesis using b1 False d01 by simp
  qed
  show ?case
  proof (cases "c' < c")
    case True
    have "\<forall>i<c'. get_bit key i = get_bit e i" using lo True by simp
    then have ag': "agree_below c' (insert key (cb_keys n0 \<union> cb_keys n1))"
      by (rule agree_below_insert[OF ag e_all])
    show ?thesis
    proof (cases "d = 0")
      case d0: True
      then have "ch = n0" unfolding ch_def by simp
      then have "snd (descend n0 key []) = e" unfolding e_def by simp
      then have "cb_inv (cb_ins c key n0)" using InternalNode.IH(1)[OF inv0] lo df by simp
      moreover have "get_bit key c' = 0" using d0 unfolding d_def .
      moreover have "insert key (cb_keys n0) \<union> cb_keys n1 = insert key (cb_keys n0 \<union> cb_keys n1)"
        by auto
      ultimately show ?thesis using True inv1 b0 b1 ag' cr by simp
    next
      case d1: False
      then have "ch = n1" unfolding ch_def by simp
      then have "snd (descend n1 key []) = e" unfolding e_def by simp
      then have "cb_inv (cb_ins c key n1)" using InternalNode.IH(2)[OF inv1] lo df by simp
      moreover have "get_bit key c' = 1" using d1 d01 unfolding d_def by simp
      moreover have "cb_keys n0 \<union> insert key (cb_keys n1) = insert key (cb_keys n0 \<union> cb_keys n1)"
        by auto
      ultimately show ?thesis using True inv0 b0 b1 ag' cr by simp
    qed
  next
    case False
    have "get_bit key c' \<noteq> get_bit e c'" if "c' = c" using df that by simp
    then have "c' \<noteq> c" using e_bit unfolding d_def by auto
    then have lt: "c < c'" using False by simp
    have "agree_below (Suc c) (cb_keys (InternalNode c' n0 n1))"
      using agree_below_mono[OF ag, of "Suc c"] lt by simp
    moreover have "e \<in> cb_keys (InternalNode c' n0 n1)" using e_all by simp
    moreover have "\<forall>x \<in> crit_bits (InternalNode c' n0 n1). c < x"
    proof
      fix x assume "x \<in> crit_bits (InternalNode c' n0 n1)"
      then have "x = c' \<or> c' < x" using cr by auto
      then show "c < x" using lt by auto
    qed
    moreover note InternalNode.prems(1)
    ultimately have "cb_inv (new_internal_node c (get_bit key c) key (InternalNode c' n0 n1))"
      using lo df by (rule cb_inv_new_internal_node)
    then show ?thesis using False by simp
  qed
qed

lemma CritBit_Insert_top_down:
  assumes "cb_inv n"
  shows "CritBit_Insert (Some n) key =
    (case find_crit_bit key (snd (descend n key [])) of
       None \<Rightarrow> Some n
     | Some c \<Rightarrow> Some (cb_ins c key n))"
proof -
  obtain path e where d: "descend n key [] = (path, e)" by (cases "descend n key []")
  show ?thesis
  proof (cases "find_crit_bit key e")
    case None
    then show ?thesis using d by (simp add: CritBit_Insert_def)
  next
    case (Some c)
    then show ?thesis using replace_at_top_down[OF assms, of key c] d
      by (simp add: CritBit_Insert_def Let_def)
  qed
qed

lemma CritBit_Insert_ok:
  assumes ok: "tree_ok t" and nf: "null_free key"
  shows "tree_ok (CritBit_Insert t key) \<and> tree_keys (CritBit_Insert t key) = insert key (tree_keys t)"
proof (cases t)
  case None
  then show ?thesis using nf by (simp add: CritBit_Insert_def tree_ok_def tree_keys_def)
next
  case (Some n)
  have inv: "cb_inv n" and nfs: "\<forall>k \<in> cb_keys n. null_free k"
    using ok Some by (simp_all add: tree_ok_def)
  define e where "e = snd (descend n key [])"
  have e_in: "e \<in> cb_keys n" unfolding e_def by (rule descend_in_keys)
  then have nfe: "null_free e" using nfs by blast
  show ?thesis
  proof (cases "find_crit_bit key e")
    case None
    then have "key = e" by (simp add: find_crit_bit_None_iff)
    moreover have "CritBit_Insert (Some n) key = Some n"
      using CritBit_Insert_top_down[OF inv, of key] None unfolding e_def by simp
    ultimately show ?thesis using Some ok e_in by (auto simp: tree_keys_def)
  next
    case c: (Some c)
    have i: "CritBit_Insert (Some n) key = Some (cb_ins c key n)"
      using CritBit_Insert_top_down[OF inv, of key] c unfolding e_def by simp
    from find_crit_bit_Some[OF nf nfe c]
    have "\<forall>i<c. get_bit key i = get_bit (snd (descend n key [])) i"
      and "get_bit key c \<noteq> get_bit (snd (descend n key [])) c"
      unfolding e_def by blast+
    then have "cb_inv (cb_ins c key n)" by (rule cb_ins_inv[OF inv])
    then show ?thesis using Some i nf nfs by (simp add: tree_ok_def tree_keys_def)
  qed
qed

lemma CritBit_Insert_stored:
  assumes "tree_ok t" and "key \<in> tree_keys t"
  shows "CritBit_Insert t key = t"
proof (cases t)
  case None
  then show ?thesis using assms(2) by (simp add: tree_keys_def)
next
  case (Some n)
  then have "cb_inv n" "key \<in> cb_keys n" using assms by (simp_all add: tree_ok_def tree_keys_def)
  then have "snd (descend n key []) = key" by (rule descend_stored)
  then show ?thesis unfolding Some by (rule CritBit_Insert_found)
qed

lemma CritBit_InsertAll_ok:
  assumes "tree_ok t" and "\<forall>k \<in> set ks. null_free k"
  shows "tree_ok (CritBit_InsertAll t ks) \<and> tree_keys (CritBit_InsertAll t ks) = tree_keys t \<union> set ks"
  using assms
proof (induction ks arbitrary: t)
  case Nil
  then show ?case by simp
next
  case (Cons k ks)
  have "tree_ok (CritBit_Insert t k)" "tree_keys (CritBit_Insert t k) = insert k (tree_keys t)"
    using CritBit_Insert_ok[of t k] Cons.prems by simp_all
  then show ?case using Cons.IH[of "CritBit_Insert t k"] Cons.prems(2) by simp
qed

lemma tree_ok_None: "tree_ok None" "tree_keys None = {}"
  by (simp_all add: tree_ok_def tree_keys_def)

lemma CritBit_InsertAll_stored:
  assumes "\<forall>x \<in> set ks. null_free x" and "k \<in> set ks"
  shows "CritBit_Insert (CritBit_InsertAll None ks) k = CritBit_InsertAll None ks"
proof -
  have "tree_ok (CritBit_InsertAll None ks)" "k \<in> tree_keys (CritBit_InsertAll None ks)"
    using CritBit_InsertAll_ok[OF tree_ok_None(1) assms(1)] assms(2) by (simp_all add: tree_ok_None)
  then show ?thesis by (rule CritBit_Insert_stored)
qed

lemma CritBit_InsertAll_keys:
  assumes "\<forall>x \<in> set ks. null_free x"
  shows "tree_keys (CritBit_InsertAll None ks) = set ks"
  using CritBit_InsertAll_ok[OF tree_ok_None(1) assms] by (simp add: tree_ok_None)

lemma CritBit_InsertAll_descend:
  assumes "\<forall>x \<in> set ks. null_free x" and "k \<in> set ks"
  shows "\<exists>n. CritBit_InsertAll None ks = Some n \<and> snd (descend n k []) = k"
proof -
  have ok: "tree_ok (CritBit_InsertAll None ks)" and k: "k \<in> tree_keys (CritBit_InsertAll None ks)"
    using CritBit_InsertAll_ok[OF tree_ok_None(1) assms(1)] assms(2) by (simp_all add: tree_ok_None)
  then obtain n where n: "CritBit_InsertAll None ks = Some n"
    by (cases "CritBit_InsertAll None ks") (simp_all add: tree_keys_def)
  then have "cb_inv n" "k \<in> cb_keys n" using ok k by (simp_all add: tree_ok_def tree_keys_def)
  then have "snd (descend n k []) = k" by (rule descend_stored)
  then show ?thesis using n by blast
qed

text \<open>
  The header's assumption on keys is needed: after \<open>a\<close> and then \<open>a\<close> followed by a null byte,
  the descent for \<open>a\<close> ends at the other key, and \<open>a\<close> is stored a second time.
\<close>

lemma CritBit_Insert_null_byte:
  "CritBit_InsertAll None [''a'', [CHR ''a'', CHR 0x00]]
     = Some (InternalNode 16 (ExternalNode [CHR ''a'', CHR 0x00]) (ExternalNode ''a''))
   \<and> CritBit_Insert (Some (InternalNode 16 (ExternalNode [CHR ''a'', CHR 0x00]) (ExternalNode ''a''))) ''a''
     = Some (InternalNode 16 (ExternalNode ''a'')
               (InternalNode 16 (ExternalNode [CHR ''a'', CHR 0x00]) (ExternalNode ''a'')))"
  by (simp add: CritBit_Insert_def find_crit_bit_def byte_at_def countl_zero_def get_bit_def
      new_internal_node_def)

text \<open>
  C10. \<open>find_crit_bit\<close> finds no differing bit between a key and itself; an \<open>Insert\<close> whose
  descent ends at a leaf holding the very key returns the tree unchanged; and so inserting
  a key a second time changes nothing, whatever the tree. In a tree built from the empty one by
  inserting keys without null bytes, the stored keys are exactly the inserted ones, the descent
  for each of them ends at its own leaf, and inserting any of them again, at any later time,
  returns the tree unchanged: \<open>Insert\<close> is idempotent per key.
\<close>

theorem CritBit_Insert_identical_key:
  "find_crit_bit k k = None
   \<and> (\<forall>n. snd (descend n k []) = k \<longrightarrow> CritBit_Insert (Some n) k = Some n)
   \<and> CritBit_Insert (CritBit_Insert t k) k = CritBit_Insert t k
   \<and> ((\<forall>x \<in> set ks. null_free x) \<longrightarrow>
        tree_keys (CritBit_InsertAll None ks) = set ks
        \<and> (k \<in> set ks \<longrightarrow>
             (\<exists>n. CritBit_InsertAll None ks = Some n \<and> snd (descend n k []) = k)
             \<and> CritBit_Insert (CritBit_InsertAll None ks) k = CritBit_InsertAll None ks))"
  using find_crit_bit_same[of k] CritBit_Insert_found[of _ k] CritBit_Insert_idem[of t k]
    CritBit_InsertAll_keys[of ks] CritBit_InsertAll_descend[of ks k]
    CritBit_InsertAll_stored[of ks k]
  by blast

text \<open>Inserting \<open>a\<close> again into the tree built from \<open>a\<close>, \<open>b\<close>, \<open>c\<close>.\<close>

theorem CritBit_Insert_identical_key_witness:
  "null_free ''a'' \<and> null_free ''b'' \<and> null_free ''c''
   \<and> CritBit_InsertAll None [''a'', ''b'', ''c'']
     = Some (InternalNode 6 (ExternalNode ''a'') (InternalNode 7 (ExternalNode ''b'') (ExternalNode ''c'')))
   \<and> tree_keys (Some (InternalNode 6 (ExternalNode ''a'') (InternalNode 7 (ExternalNode ''b'') (ExternalNode ''c''))))
     = {''a'', ''b'', ''c''}
   \<and> snd (descend (InternalNode 6 (ExternalNode ''a'') (InternalNode 7 (ExternalNode ''b'') (ExternalNode ''c''))) ''a'' []) = ''a''
   \<and> CritBit_Insert (Some (InternalNode 6 (ExternalNode ''a'') (InternalNode 7 (ExternalNode ''b'') (ExternalNode ''c'')))) ''a''
     = Some (InternalNode 6 (ExternalNode ''a'') (InternalNode 7 (ExternalNode ''b'') (ExternalNode ''c'')))"
proof -
  let ?n = "InternalNode 6 (ExternalNode ''a'') (InternalNode 7 (ExternalNode ''b'') (ExternalNode ''c''))"
  let ?ks = "[''a'', ''b'', ''c'']"
  have nf: "null_free ''a''" "null_free ''b''" "null_free ''c''"
    by (simp_all add: null_free_def)
  then have nfs: "\<forall>x \<in> set ?ks. null_free x" by simp
  have k: "''a'' \<in> set ?ks" by simp
  have b: "CritBit_InsertAll None ?ks = Some ?n"
    by (simp add: CritBit_Insert_def find_crit_bit_def byte_at_def countl_zero_def get_bit_def
        new_internal_node_def)
  from CritBit_Insert_identical_key [of "''a''" None ?ks] nfs k
  have "tree_keys (CritBit_InsertAll None ?ks) = set ?ks"
    and "\<exists>n. CritBit_InsertAll None ?ks = Some n \<and> snd (descend n ''a'' []) = ''a''"
    and "CritBit_Insert (CritBit_InsertAll None ?ks) ''a'' = CritBit_InsertAll None ?ks"
    by blast+
  then have "tree_keys (Some ?n) = {''a'', ''b'', ''c''}"
    and "snd (descend ?n ''a'' []) = ''a''"
    and "CritBit_Insert (Some ?n) ''a'' = Some ?n"
    unfolding b by simp_all
  then show ?thesis using nf b by blast
qed

section \<open>Reference counting and persistence\<close>

lemma lookup_update: "lookup (h[a := x]) b = (if a = b \<and> a < length h then x else lookup h b)"
  by (auto simp: lookup_def)

lemma lookup_Some_length: "lookup h a = Some c \<Longrightarrow> a < length h"
  by (auto simp: lookup_def split: if_splits)

lemma lookup_nth: "lookup h a = Some c \<Longrightarrow> h ! a = Some c"
  by (auto simp: lookup_def split: if_splits)

lemma finite_idx: "finite {i. i < length h \<and> i \<notin> D}"
  by simp

lemma indeg_split:
  assumes "a < length h" "a \<notin> D"
  shows "indeg h D b = indeg h (insert a D) b + cell_indeg (h ! a) b"
proof -
  have s: "{i. i < length h \<and> i \<notin> insert a D} = {i. i < length h \<and> i \<notin> D} - {a}" by auto
  have "a \<in> {i. i < length h \<and> i \<notin> D}" using assms by simp
  from sum.remove[OF finite_idx this, of "\<lambda>i. cell_indeg (h ! i) b"]
  show ?thesis unfolding indeg_def s by simp
qed

lemma indeg_update_dead:
  assumes "a \<in> D"
  shows "indeg (h[a := x]) D b = indeg h D b"
proof -
  have "h[a := x] ! i = h ! i" if "i \<notin> D" for i
    using that assms by (intro nth_list_update_neq) auto
  then show ?thesis unfolding indeg_def by (intro sum.cong) auto
qed

lemma indeg_update:
  assumes "a < length h" "a \<notin> D"
  shows "indeg (h[a := x]) D b + cell_indeg (h ! a) b = indeg h D b + cell_indeg x b"
proof -
  have 1: "indeg (h[a := x]) D b = indeg (h[a := x]) (insert a D) b + cell_indeg x b"
    using indeg_split[of a "h[a := x]" D b] assms by simp
  have 2: "indeg (h[a := x]) (insert a D) b = indeg h (insert a D) b"
    by (rule indeg_update_dead) simp
  show ?thesis using 1 2 indeg_split[OF assms, of b] by simp
qed

lemma indeg_update_rc:
  assumes "lookup h a = Some c"
  shows "indeg (h[a := Some (c\<lparr>c_refcount := x\<rparr>)]) D b = indeg h D b"
proof (cases "a \<in> D")
  case True
  then show ?thesis by (rule indeg_update_dead)
next
  case False
  have "cell_indeg (h ! a) b = cell_indeg (Some (c\<lparr>c_refcount := x\<rparr>)) b"
    using assms by (simp add: lookup_nth)
  then show ?thesis
    using indeg_update[OF lookup_Some_length[OF assms] False, of "Some (c\<lparr>c_refcount := x\<rparr>)" b]
    by simp
qed

lemma indeg_free:
  assumes "a < length h"
  shows "indeg (h[a := None]) D b = indeg h (insert a D) b"
proof (cases "a \<in> D")
  case True
  then show ?thesis using indeg_update_dead[OF True] by (simp add: insert_absorb)
next
  case False
  have "indeg (h[a := None]) D b = indeg (h[a := None]) (insert a D) b"
    using indeg_split[of a "h[a := None]" D b] assms False by simp
  also have "\<dots> = indeg h (insert a D) b" by (rule indeg_update_dead) simp
  finally show ?thesis .
qed

lemma alive_count_le: "alive_count h D \<le> length h"
proof -
  have "{a. alive h D a} \<subseteq> {..<length h}"
    by (auto simp: alive_def lookup_def split: if_splits)
  then have "card {a. alive h D a} \<le> card {..<length h}" by (intro card_mono) auto
  then show ?thesis by (simp add: alive_count_def)
qed

lemma finite_alive: "finite {a. alive h D a}"
proof -
  have "{a. alive h D a} \<subseteq> {..<length h}"
    by (auto simp: alive_def lookup_def split: if_splits)
  then show ?thesis by (rule finite_subset) simp
qed

lemma ptr_mset_simps [simp]: "ptr_mset None = {#}" "ptr_mset (Some a) = {#a#}"
  by (simp_all add: ptr_mset_def)

lemma cell_indeg_count:
  "cell_indeg (Some c) b = count (ptr_mset (c_right c) + ptr_mset (c_left c)) b"
  by (cases "c_left c"; cases "c_right c") auto

lemma indeg_zero_no_ref:
  assumes "indeg h D a = 0" "alive h D b" "lookup h b = Some cb"
  shows "c_left cb \<noteq> Some a \<and> c_right cb \<noteq> Some a"
proof -
  have b: "b < length h" "b \<notin> D" "h ! b = Some cb"
    using assms(2,3) by (auto simp: alive_def lookup_def split: if_splits)
  have "indeg h D a = indeg h (insert b D) a + cell_indeg (h ! b) a"
    using b by (intro indeg_split) auto
  then have "cell_indeg (Some cb) a = 0" using assms(1) b(3) by simp
  then show ?thesis by (auto split: if_splits)
qed

lemma alive_update_rc:
  "lookup h a = Some c \<Longrightarrow> alive (h[a := Some c']) D b = alive h D b"
  by (auto simp: alive_def lookup_update)

lemma ptr_ok_update_rc:
  "lookup h a = Some c \<Longrightarrow> ptr_ok (h[a := Some c']) D p = ptr_ok h D p"
  by (auto simp: ptr_ok_def alive_update_rc split: option.splits)

text \<open>Dropping a root whose target keeps a positive count.\<close>

lemma rc_inv_dec_simple:
  assumes inv: "rc_inv h D (add_mset a R)" and c: "lookup h a = Some c"
  shows "rc_inv (h[a := Some (c\<lparr>c_refcount := c_refcount c - 1\<rparr>)]) D R"
proof -
  let ?h = "h[a := Some (c\<lparr>c_refcount := c_refcount c - 1\<rparr>)]"
  have al: "alive ?h D b = alive h D b" for b by (rule alive_update_rc[OF c])
  have po: "ptr_ok ?h D p = ptr_ok h D p" for p by (rule ptr_ok_update_rc[OF c])
  have ind: "indeg ?h D b = indeg h D b" for b by (rule indeg_update_rc[OF c])
  show ?thesis
    unfolding rc_inv_def al po ind
  proof (intro conjI[of "\<forall>a c. _ a c"] allI impI ballI)
    fix b cb assume b: "alive h D b \<and> lookup ?h b = Some cb"
    show "ptr_ok h D (c_left cb) \<and> ptr_ok h D (c_right cb)
      \<and> c_refcount cb = int (indeg h D b + count R b)"
    proof (cases "b = a")
      case True
      then have cb: "cb = c\<lparr>c_refcount := c_refcount c - 1\<rparr>"
        using b c by (simp add: lookup_update lookup_Some_length)
      have "ptr_ok h D (c_left c)" "ptr_ok h D (c_right c)"
        "c_refcount c = int (indeg h D a + count (add_mset a R) a)"
        using inv b c True unfolding rc_inv_def by blast+
      then show ?thesis unfolding cb True by simp
    next
      case False
      then have "lookup h b = Some cb" using b by (simp add: lookup_update)
      then have "ptr_ok h D (c_left cb)" "ptr_ok h D (c_right cb)"
        "c_refcount cb = int (indeg h D b + count (add_mset a R) b)"
        using inv b unfolding rc_inv_def by blast+
      then show ?thesis using False by simp
    qed
  next
    fix x assume "x \<in># R"
    then show "alive h D x" using inv unfolding rc_inv_def by auto
  qed
qed

text \<open>Starting to destroy a node whose count has reached 0: it joins the dead set and its
  two child handles become pending roots.\<close>

lemma rc_inv_kill:
  assumes inv: "rc_inv h D (add_mset a R)" and c: "lookup h a = Some c"
    and z: "c_refcount c = 1"
  shows "rc_inv (h[a := Some (c\<lparr>c_refcount := 0\<rparr>)]) (insert a D)
           (ptr_mset (c_right c) + (ptr_mset (c_left c) + R))"
proof -
  let ?h = "h[a := Some (c\<lparr>c_refcount := 0\<rparr>)]"
  let ?D = "insert a D"
  have a_alive: "alive h D a" using inv unfolding rc_inv_def by auto
  then have aD: "a \<notin> D" and alen: "a < length h" and nth: "h ! a = Some c"
    using c by (auto simp: alive_def lookup_def split: if_splits)
  have "c_refcount c = int (indeg h D a + count (add_mset a R) a)"
    using inv a_alive c unfolding rc_inv_def by blast
  then have i0: "indeg h D a = 0" and r0: "count R a = 0" using z by auto
  have al: "alive ?h ?D b \<longleftrightarrow> alive h D b \<and> b \<noteq> a" for b
    by (auto simp: alive_def lookup_update)
  have lk: "b \<noteq> a \<Longrightarrow> lookup ?h b = lookup h b" for b by (simp add: lookup_update)
  have noref: "c_left cb \<noteq> Some a \<and> c_right cb \<noteq> Some a" if "alive h D b" "lookup h b = Some cb" for b cb
    using indeg_zero_no_ref[OF i0 that] .
  have po: "ptr_ok ?h ?D p" if "ptr_ok h D p" "p \<noteq> Some a" for p
    using that by (auto simp: ptr_ok_def al split: option.splits)
  have ind: "indeg ?h ?D b = indeg h ?D b" for b by (rule indeg_update_dead) simp
  have ind2: "indeg h D b = indeg h ?D b + cell_indeg (Some c) b" for b
    using indeg_split[OF alen aD, of b] nth by simp
  show ?thesis
    unfolding rc_inv_def
  proof (intro conjI allI impI ballI)
    fix b cb assume "alive ?h ?D b \<and> lookup ?h b = Some cb"
    then have b: "alive h D b" "b \<noteq> a" "lookup h b = Some cb" by (auto simp: al lk)
    have old: "ptr_ok h D (c_left cb)" "ptr_ok h D (c_right cb)"
      "c_refcount cb = int (indeg h D b + count (add_mset a R) b)"
      using inv b unfolding rc_inv_def by blast+
    show "ptr_ok ?h ?D (c_left cb)" "ptr_ok ?h ?D (c_right cb)"
      using old(1,2) noref[OF b(1,3)] by (auto intro: po)
    show "c_refcount cb = int (indeg ?h ?D b + count (ptr_mset (c_right c) + (ptr_mset (c_left c) + R)) b)"
      using old(3) b(2) ind2[of b] unfolding ind cell_indeg_count by simp
  next
    fix x assume x: "x \<in># ptr_mset (c_right c) + (ptr_mset (c_left c) + R)"
    have self: "c_left c \<noteq> Some a \<and> c_right c \<noteq> Some a" using noref[OF a_alive c] .
    have kids: "ptr_ok h D (c_left c)" "ptr_ok h D (c_right c)"
      using inv a_alive c unfolding rc_inv_def by blast+
    from x consider "c_right c = Some x" | "c_left c = Some x" | "x \<in># R"
      by (auto simp: ptr_mset_def split: option.splits)
    then show "alive ?h ?D x"
    proof cases
      case 1
      then show ?thesis using kids(2) self by (auto simp: al ptr_ok_def)
    next
      case 2
      then show ?thesis using kids(1) self by (auto simp: al ptr_ok_def)
    next
      case 3
      then have "alive h D x" using inv unfolding rc_inv_def by auto
      moreover have "x \<noteq> a" using 3 r0 by (auto simp: count_eq_zero_iff)
      ultimately show ?thesis by (simp add: al)
    qed
  qed
qed

text \<open>Freeing a dead node.\<close>

lemma rc_inv_free:
  assumes inv: "rc_inv h (insert a D) R" and alen: "a < length h"
  shows "rc_inv (h[a := None]) D R"
proof -
  let ?h = "h[a := None]"
  have al: "alive ?h D b \<longleftrightarrow> alive h (insert a D) b" for b
    using alen by (auto simp: alive_def lookup_update)
  have po: "ptr_ok ?h D p \<longleftrightarrow> ptr_ok h (insert a D) p" for p
    by (auto simp: ptr_ok_def al split: option.splits)
  have ind: "indeg ?h D b = indeg h (insert a D) b" for b by (rule indeg_free[OF alen])
  have lk: "alive h (insert a D) b \<Longrightarrow> lookup ?h b = lookup h b" for b
    by (auto simp: alive_def lookup_update)
  show ?thesis
    unfolding rc_inv_def al po ind
  proof (intro conjI allI impI ballI)
    fix b cb assume "alive h (insert a D) b \<and> lookup ?h b = Some cb"
    then have b: "alive h (insert a D) b" "lookup h b = Some cb" using lk by auto
    show "ptr_ok h (insert a D) (c_left cb)" "ptr_ok h (insert a D) (c_right cb)"
      "c_refcount cb = int (indeg h (insert a D) b + count R b)"
      using inv b unfolding rc_inv_def by blast+
  next
    fix x assume "x \<in># R"
    then show "alive h (insert a D) x" using inv unfolding rc_inv_def by auto
  qed
qed

lemma alive_count_kill:
  assumes "alive h D a" "lookup h a = Some c"
  shows "Suc (alive_count (h[a := Some c']) (insert a D)) = alive_count h D"
proof -
  have "{b. alive (h[a := Some c']) (insert a D) b} = {b. alive h D b} - {a}"
    by (auto simp: alive_def lookup_update)
  moreover have "a \<in> {b. alive h D b}" using assms by simp
  ultimately show ?thesis
    unfolding alive_count_def using card_Suc_Diff1[OF finite_alive[of h D], of a]
    by simp
qed

lemma alive_count_mono:
  assumes "length h' = length h" "\<And>b c'. lookup h' b = Some c' \<Longrightarrow> \<exists>c. lookup h b = Some c"
  shows "alive_count h' D \<le> alive_count h D"
proof -
  have "alive h D b" if "alive h' D b" for b
  proof -
    from that obtain c' where "lookup h' b = Some c'" "b \<notin> D" by (auto simp: alive_def)
    with assms(2) show ?thesis by (fastforce simp: alive_def)
  qed
  then have "{b. alive h' D b} \<subseteq> {b. alive h D b}" by auto
  then show ?thesis unfolding alive_count_def by (intro card_mono finite_alive)
qed

lemma same_fields_refl [simp]: "same_fields c c"
  by (simp add: same_fields_def)

lemma same_fields_rc [simp]: "same_fields c (c\<lparr>c_refcount := x\<rparr>)"
  by (simp add: same_fields_def)

lemma same_fields_trans: "same_fields c c' \<Longrightarrow> same_fields c' c'' \<Longrightarrow> same_fields c c''"
  by (simp add: same_fields_def)

lemma heap_frame_refl [simp]: "heap_frame h h"
  by (auto simp: heap_frame_def)

lemma heap_frame_trans:
  assumes "heap_frame h h'" "heap_frame h' h''"
  shows "heap_frame h h''"
  unfolding heap_frame_def
proof (intro conjI allI impI)
  show "length h \<le> length h''" using assms by (auto simp: heap_frame_def)
next
  fix b c'' assume b: "b < length h \<and> lookup h'' b = Some c''"
  then have "b < length h'" using assms(1) by (auto simp: heap_frame_def)
  then obtain c' where c': "lookup h' b = Some c'" "same_fields c' c''"
    using assms(2) b unfolding heap_frame_def by blast
  then obtain c where "lookup h b = Some c" "same_fields c c'"
    using assms(1) b unfolding heap_frame_def by blast
  then show "\<exists>c. lookup h b = Some c \<and> same_fields c c''"
    using c'(2) same_fields_trans by blast
next
  fix b c assume "lookup h b = Some c \<and> c_refcount c = 0"
  then show "lookup h'' b = Some c" using assms unfolding heap_frame_def by blast
qed

lemma heap_frame_lookup:
  assumes "heap_frame h h'" "length h' = length h" "lookup h' b = Some c'"
  shows "\<exists>c. lookup h b = Some c \<and> same_fields c c'"
proof -
  have "b < length h" using assms(2,3) lookup_Some_length by fastforce
  then show ?thesis using assms(1,3) unfolding heap_frame_def by blast
qed

lemma alive_count_frame:
  assumes "heap_frame h h'" "length h' = length h"
  shows "alive_count h' D \<le> alive_count h D"
  using heap_frame_lookup[OF assms] by (intro alive_count_mono[OF assms(2)]) blast

lemma DecRef_inv:
  assumes "rc_inv h D (ptr_mset p + R)" "alive_count h D < fuel"
  shows "\<exists>h'. DecRef fuel h p = Inr h' \<and> rc_inv h' D R \<and> length h' = length h
      \<and> heap_frame h h' \<and> (\<forall>d\<in>D. lookup h' d = lookup h d)"
  using assms
proof (induction fuel arbitrary: h p D R)
  case 0
  then show ?case by simp
next
  case (Suc n)
  show ?case
  proof (cases p)
    case None
    then show ?thesis using Suc.prems by simp
  next
    case (Some a)
    have inv: "rc_inv h D (add_mset a R)" using Suc.prems(1) Some by simp
    then have a_alive: "alive h D a" unfolding rc_inv_def by auto
    then obtain c where c: "lookup h a = Some c" and aD: "a \<notin> D"
      by (auto simp: alive_def)
    have alen: "a < length h" using c by (rule lookup_Some_length)
    have rc: "c_refcount c = int (indeg h D a + count (add_mset a R) a)"
      using inv a_alive c unfolding rc_inv_def by blast
    then have rc_pos: "c_refcount c \<ge> 1" by simp
    define c' where "c' = c\<lparr>c_refcount := c_refcount c - 1\<rparr>"
    define h1 where "h1 = h[a := Some c']"
    have fr1: "heap_frame h h1"
      unfolding heap_frame_def h1_def c'_def using c rc_pos
      by (auto simp: lookup_update)
    have D1: "\<forall>d\<in>D. lookup h1 d = lookup h d"
      using aD by (auto simp: h1_def lookup_update)
    show ?thesis
    proof (cases "c_refcount c = 1")
      case False
      then have "DecRef (Suc n) h p = Inr h1"
        using Some c by (simp add: Let_def h1_def c'_def)
      moreover have "rc_inv h1 D R"
        unfolding h1_def c'_def by (rule rc_inv_dec_simple[OF inv c])
      ultimately show ?thesis using fr1 D1 by (simp add: h1_def)
    next
      case True
      let ?D = "insert a D"
      have c'0: "c' = c\<lparr>c_refcount := 0\<rparr>" using True by (simp add: c'_def)
      have inv1: "rc_inv h1 ?D (ptr_mset (c_right c) + (ptr_mset (c_left c) + R))"
        unfolding h1_def c'0 by (rule rc_inv_kill[OF inv c True])
      have "Suc (alive_count h1 ?D) = alive_count h D"
        unfolding h1_def by (rule alive_count_kill[OF a_alive c])
      then have ac1: "alive_count h1 ?D < n" using Suc.prems(2) by simp
      from Suc.IH[OF inv1 ac1] obtain h2 where
        h2: "DecRef n h1 (c_right c) = Inr h2" "rc_inv h2 ?D (ptr_mset (c_left c) + R)"
          "length h2 = length h1" "heap_frame h1 h2" "\<forall>d\<in>?D. lookup h2 d = lookup h1 d"
        by blast
      have "alive_count h2 ?D \<le> alive_count h1 ?D"
        using h2(3,4) by (intro alive_count_frame)
      then have ac2: "alive_count h2 ?D < n" using ac1 by simp
      from Suc.IH[OF h2(2) ac2] obtain h3 where
        h3: "DecRef n h2 (c_left c) = Inr h3" "rc_inv h3 ?D R"
          "length h3 = length h2" "heap_frame h2 h3" "\<forall>d\<in>?D. lookup h3 d = lookup h2 d"
        by blast
      define h4 where "h4 = h3[a := None]"
      have len: "length h3 = length h" using h3(3) h2(3) by (simp add: h1_def)
      have "DecRef (Suc n) h p = Inr h4"
        using Some c True h2(1) h3(1) by (simp add: Let_def h1_def c'_def h4_def)
      moreover have "rc_inv h4 D R"
        unfolding h4_def using h3(2) alen len by (intro rc_inv_free) auto
      moreover have "length h4 = length h" using len by (simp add: h4_def)
      moreover have "heap_frame h h4"
      proof -
        have f3: "heap_frame h h3" using fr1 h2(4) h3(4) heap_frame_trans by blast
        show ?thesis
          unfolding heap_frame_def
        proof (intro conjI allI impI)
          show "length h \<le> length h4" using len by (simp add: h4_def)
        next
          fix b c4 assume "b < length h \<and> lookup h4 b = Some c4"
          then have "b < length h \<and> lookup h3 b = Some c4"
            by (auto simp: h4_def lookup_update split: if_splits)
          then show "\<exists>c. lookup h b = Some c \<and> same_fields c c4"
            using f3 unfolding heap_frame_def by blast
        next
          fix b cb assume b: "lookup h b = Some cb \<and> c_refcount cb = 0"
          then have "b \<noteq> a" using c rc_pos by auto
          moreover have "lookup h3 b = Some cb" using f3 b unfolding heap_frame_def by blast
          ultimately show "lookup h4 b = Some cb" by (simp add: h4_def lookup_update)
        qed
      qed
      moreover have "\<forall>d\<in>D. lookup h4 d = lookup h d"
        using h3(5) h2(5) D1 aD by (auto simp: h4_def lookup_update)
      ultimately show ?thesis by blast
    qed
  qed
qed

lemma struct_frame_refl [simp]: "struct_frame h h"
  by (auto simp: struct_frame_def)

lemma heap_frame_struct: "heap_frame h h' \<Longrightarrow> struct_frame h h'"
  by (auto simp: heap_frame_def struct_frame_def)

lemma struct_frame_trans:
  assumes "struct_frame h h'" "struct_frame h' h''"
  shows "struct_frame h h''"
  unfolding struct_frame_def
proof (intro conjI allI impI)
  show "length h \<le> length h''" using assms by (auto simp: struct_frame_def)
next
  fix b c'' assume b: "b < length h \<and> lookup h'' b = Some c''"
  then have "b < length h'" using assms(1) by (auto simp: struct_frame_def)
  then obtain c' where c': "lookup h' b = Some c'" "same_fields c' c''"
    using assms(2) b unfolding struct_frame_def by blast
  then obtain c where "lookup h b = Some c" "same_fields c c'"
    using assms(1) b unfolding struct_frame_def by blast
  then show "\<exists>c. lookup h b = Some c \<and> same_fields c c''"
    using c'(2) same_fields_trans by blast
qed

lemma repr_frame:
  assumes "repr h p t" "struct_frame h h'" "rc_inv h' {} R" "ptr_ok h' {} p"
  shows "repr h' p t"
  using assms(1,4)
proof (induction t arbitrary: p)
  case Null
  then show ?case by simp
next
  case (Node u ht l v r)
  from Node.prems(1) obtain a c where a: "p = Some a" "lookup h a = Some c"
    and c: "c_height c = ht" "c_value c = v" "repr h (c_left c) l" "repr h (c_right c) r"
    by (auto split: option.splits)
  have al: "alive h' {} a" using Node.prems(2) a(1) by (simp add: ptr_ok_def)
  then obtain c' where c': "lookup h' a = Some c'" by (auto simp: alive_def)
  have "a < length h" using a(2) by (rule lookup_Some_length)
  then obtain c0 where "lookup h a = Some c0" "same_fields c0 c'"
    using assms(2) c' unfolding struct_frame_def by blast
  then have sf: "same_fields c c'" using a(2) by simp
  have ok: "ptr_ok h' {} (c_left c')" "ptr_ok h' {} (c_right c')"
    using assms(3) al c' unfolding rc_inv_def by blast+
  have "repr h' (c_left c') l" "repr h' (c_right c') r"
    using Node.IH(1)[of "c_left c"] Node.IH(2)[of "c_right c"] c(3,4) ok sf
    by (auto simp: same_fields_def)
  then show ?case using a(1) c' sf c(1,2) by (simp add: same_fields_def)
qed

lemma repr_HeightOf: "repr h p t \<Longrightarrow> HeightOf_h h p = Inr (HeightOf t)"
  by (cases t) (auto simp: HeightOf_h_def split: option.splits)

lemma repr_BalanceOf: "repr h l t1 \<Longrightarrow> repr h r t2 \<Longrightarrow> BalanceOf_h h l r = Inr (BalanceOf t1 t2)"
  by (simp add: BalanceOf_h_def repr_HeightOf BalanceOf_def)

lemma IncRef_inv:
  assumes "rc_inv h {} R" "ptr_ok h {} p"
  shows "\<exists>h'. IncRef h p = Inr h' \<and> rc_inv h' {} (ptr_mset p + R) \<and> length h' = length h
      \<and> struct_frame h h' \<and> (\<forall>q. ptr_ok h' {} q = ptr_ok h {} q)"
proof (cases p)
  case None
  then show ?thesis using assms by (simp add: IncRef_def)
next
  case (Some a)
  then have al: "alive h {} a" using assms(2) by (simp add: ptr_ok_def)
  then obtain c where c: "lookup h a = Some c" by (auto simp: alive_def)
  define h' where "h' = h[a := Some (c\<lparr>c_refcount := c_refcount c + 1\<rparr>)]"
  have e: "IncRef h p = Inr h'" using Some c by (simp add: IncRef_def h'_def)
  have al': "alive h' {} b = alive h {} b" for b unfolding h'_def by (rule alive_update_rc[OF c])
  have po: "ptr_ok h' {} q = ptr_ok h {} q" for q unfolding h'_def by (rule ptr_ok_update_rc[OF c])
  have ind: "indeg h' {} b = indeg h {} b" for b unfolding h'_def by (rule indeg_update_rc[OF c])
  have inv: "rc_inv h' {} (add_mset a R)"
    unfolding rc_inv_def al' po ind
  proof (intro conjI[of "\<forall>a c. _ a c"] allI impI ballI)
    fix b cb assume b: "alive h {} b \<and> lookup h' b = Some cb"
    show "ptr_ok h {} (c_left cb) \<and> ptr_ok h {} (c_right cb)
      \<and> c_refcount cb = int (indeg h {} b + count (add_mset a R) b)"
    proof (cases "b = a")
      case True
      then have cb: "cb = c\<lparr>c_refcount := c_refcount c + 1\<rparr>"
        using b c by (simp add: h'_def lookup_update lookup_Some_length)
      have "ptr_ok h {} (c_left c)" "ptr_ok h {} (c_right c)"
        "c_refcount c = int (indeg h {} a + count R a)"
        using assms(1) al c unfolding rc_inv_def by blast+
      then show ?thesis unfolding cb True by simp
    next
      case False
      then have "lookup h b = Some cb" using b by (simp add: h'_def lookup_update)
      then have "ptr_ok h {} (c_left cb)" "ptr_ok h {} (c_right cb)"
        "c_refcount cb = int (indeg h {} b + count R b)"
        using assms(1) b unfolding rc_inv_def by blast+
      then show ?thesis using False by simp
    qed
  next
    fix x assume "x \<in># add_mset a R"
    then show "alive h {} x" using assms(1) al unfolding rc_inv_def by auto
  qed
  have sf: "struct_frame h h'"
    unfolding struct_frame_def h'_def using c by (auto simp: lookup_update)
  show ?thesis using e inv sf po Some by (simp add: h'_def)
qed

lemma lookup_beyond: "\<not> b < length h \<Longrightarrow> lookup h b = None"
  by (simp add: lookup_def)

lemma lookup_append:
  "lookup (h @ [x]) b = (if b < length h then lookup h b else if b = length h then x else None)"
  by (auto simp: lookup_def nth_append)

lemma indeg_append: "indeg (h @ [x]) {} b = indeg h {} b + cell_indeg x b"
proof -
  have s: "{i. i < length (h @ [x]) \<and> i \<notin> {}} = insert (length h) {i. i < length h \<and> i \<notin> {}}"
    by auto
  have "(\<Sum>i\<in>{i. i < length h \<and> i \<notin> {}}. cell_indeg ((h @ [x]) ! i) b)
      = (\<Sum>i\<in>{i. i < length h \<and> i \<notin> {}}. cell_indeg (h ! i) b)"
    by (intro sum.cong) (auto simp: nth_append)
  then show ?thesis unfolding indeg_def s by simp
qed

lemma rc_inv_fresh:
  assumes "rc_inv h {} R" "length h \<le> a"
  shows "indeg h {} a = 0 \<and> count R a = 0"
proof -
  have na: "\<not> alive h {} a" using assms(2) by (auto simp: alive_def lookup_def)
  have "cell_indeg (h ! i) a = 0" if "i < length h" for i
  proof (cases "h ! i")
    case None
    then show ?thesis by simp
  next
    case (Some c)
    then have "alive h {} i" "lookup h i = Some c" using that by (auto simp: alive_def lookup_def)
    then have "ptr_ok h {} (c_left c)" "ptr_ok h {} (c_right c)"
      using assms(1) unfolding rc_inv_def by blast+
    then show ?thesis using Some na by (auto simp: ptr_ok_def)
  qed
  then have "indeg h {} a = 0" unfolding indeg_def by simp
  moreover have "count R a = 0"
    using assms(1) na unfolding rc_inv_def by (auto simp: count_eq_zero_iff)
  ultimately show ?thesis by simp
qed

lemma alloc_inv:
  assumes "rc_inv h {} (ptr_mset r + (ptr_mset l + R))"
  shows "rc_inv (h @ [Some \<lparr>c_refcount = 0, c_height = ht, c_left = l, c_right = r, c_value = v\<rparr>]) {} R"
proof -
  let ?c = "\<lparr>c_refcount = 0, c_height = ht, c_left = l, c_right = r, c_value = v\<rparr>"
  let ?h = "h @ [Some ?c]"
  let ?a = "length h"
  have al: "alive ?h {} b \<longleftrightarrow> alive h {} b \<or> b = ?a" for b
    by (auto simp: alive_def lookup_append lookup_beyond)
  have po: "ptr_ok h {} p \<Longrightarrow> ptr_ok ?h {} p" for p
    by (auto simp: ptr_ok_def al split: option.splits)
  have ind: "indeg ?h {} b = indeg h {} b + count (ptr_mset r + ptr_mset l) b" for b
    unfolding indeg_append cell_indeg_count by simp
  have fresh: "indeg h {} ?a = 0" "count (ptr_mset r + (ptr_mset l + R)) ?a = 0"
    using rc_inv_fresh[OF assms, of ?a] by auto
  have kids: "ptr_ok h {} l" "ptr_ok h {} r"
    using assms unfolding rc_inv_def by (auto simp: ptr_ok_def ptr_mset_def split: option.splits)
  show ?thesis
    unfolding rc_inv_def
  proof (intro conjI[of "\<forall>a c. _ a c"] allI impI ballI)
    fix b cb assume b: "alive ?h {} b \<and> lookup ?h b = Some cb"
    show "ptr_ok ?h {} (c_left cb) \<and> ptr_ok ?h {} (c_right cb)
      \<and> c_refcount cb = int (indeg ?h {} b + count R b)"
    proof (cases "b = ?a")
      case True
      then have "cb = ?c" using b by (simp add: lookup_append)
      then show ?thesis using kids fresh True by (auto simp: ind intro: po)
    next
      case False
      then have "alive h {} b" using b by (simp add: al)
      then have ob: "alive h {} b" "lookup h b = Some cb"
        using b False by (auto simp: lookup_append alive_def lookup_beyond split: if_splits)
      then have "ptr_ok h {} (c_left cb)" "ptr_ok h {} (c_right cb)"
        "c_refcount cb = int (indeg h {} b + count (ptr_mset r + (ptr_mset l + R)) b)"
        using assms unfolding rc_inv_def by blast+
      then show ?thesis by (auto simp: ind intro: po)
    qed
  next
    fix x assume "x \<in># R"
    then have "alive h {} x" using assms unfolding rc_inv_def by auto
    then show "alive ?h {} x" by (simp add: al)
  qed
qed

lemma fresh_node_alive: "fresh_node h a \<Longrightarrow> ptr_ok h {} (Some a)"
  by (auto simp: fresh_node_def ptr_ok_def alive_def)

lemma assert_Inr_iff: "assert nd c = Inr u \<longleftrightarrow> nd \<or> c"
  by (auto simp: assert_def)

lemma new_node_Inr_iff:
  "new_node nd l v r = Inr t \<longleftrightarrow>
     (nd \<or> \<bar>BalanceOf l r\<bar> < 2) \<and> t = Node () (max (HeightOf l) (HeightOf r) + 1) l v r"
  by (auto simp: new_node_def bind_result_Inr assert_Inr_iff)

lemma new_node_h_built:
  assumes inv: "rc_inv h {} R" and ok: "ptr_ok h {} l" "ptr_ok h {} r"
    and rep: "repr h l t1" "repr h r t2"
    and pure: "new_node nd t1 v t2 = Inr t"
  shows "\<exists>h'. new_node_h nd h l v r = Inr (h', length h) \<and> built h R h' (length h) t
      \<and> length h' = Suc (length h)"
proof -
  from IncRef_inv[OF inv ok(1)] obtain h1 where
    h1: "IncRef h l = Inr h1" "rc_inv h1 {} (ptr_mset l + R)" "length h1 = length h"
      "struct_frame h h1" "\<forall>q. ptr_ok h1 {} q = ptr_ok h {} q"
    by blast
  have "ptr_ok h1 {} r" using ok(2) h1(5) by simp
  from IncRef_inv[OF h1(2) this] obtain h2 where
    h2: "IncRef h1 r = Inr h2" "rc_inv h2 {} (ptr_mset r + (ptr_mset l + R))" "length h2 = length h1"
      "struct_frame h1 h2" "\<forall>q. ptr_ok h2 {} q = ptr_ok h1 {} q"
    by blast
  define c where "c = \<lparr>c_refcount = 0, c_height = max (HeightOf t1) (HeightOf t2) + 1,
     c_left = l, c_right = r, c_value = v\<rparr>"
  define h' where "h' = h2 @ [Some c]"
  have t: "t = Node () (max (HeightOf t1) (HeightOf t2) + 1) t1 v t2"
    and a: "nd \<or> \<bar>HeightOf t2 - HeightOf t1\<bar> < 2"
    using pure by (auto simp: new_node_Inr_iff BalanceOf_def)
  have e: "new_node_h nd h l v r = Inr (h', length h)"
    using h1(1,3) h2(1,3) a
    by (simp add: new_node_h_def repr_HeightOf[OF rep(1)] repr_HeightOf[OF rep(2)] assert_ok
        h'_def c_def)
  have inv': "rc_inv h' {} R" unfolding h'_def c_def by (rule alloc_inv[OF h2(2)])
  have sf2: "struct_frame h h2" using h1(4) h2(4) by (rule struct_frame_trans)
  have sf: "struct_frame h h'"
    using sf2 h2(3) h1(3) unfolding struct_frame_def h'_def by (auto simp: lookup_append)
  have po: "ptr_ok h' {} q" if "ptr_ok h {} q" for q
  proof -
    have "ptr_ok h2 {} q" using that h1(5) h2(5) by simp
    then show ?thesis
      unfolding h'_def by (auto simp: ptr_ok_def alive_def lookup_append split: option.splits dest: lookup_Some_length)
  qed
  have lk: "lookup h' (length h) = Some c" using h1(3) h2(3) by (simp add: h'_def lookup_append)
  have r1: "repr h' l t1" using rep(1) sf inv' po[OF ok(1)] by (rule repr_frame)
  have r2: "repr h' r t2" using rep(2) sf inv' po[OF ok(2)] by (rule repr_frame)
  have "repr h' (Some (length h)) t" using lk r1 r2 by (simp add: t c_def)
  moreover have "fresh_node h' (length h)" using lk by (simp add: fresh_node_def c_def)
  ultimately have "built h R h' (length h) t" using inv' sf po by (simp add: built_def)
  then show ?thesis using e h1(3) h2(3) by (simp add: h'_def)
qed

lemma built_trans:
  assumes "built h R h1 a1 t1" "built h1 R h2 a2 t2"
  shows "built h R h2 a2 t2"
  using assms unfolding built_def by (auto intro: struct_frame_trans)

lemma built_repr:
  assumes "built h R h' a t" "repr h q s" "ptr_ok h {} q"
  shows "repr h' q s" "ptr_ok h' {} q"
  using assms unfolding built_def by (auto intro: repr_frame)

lemma built_self: "built h R h' a t \<Longrightarrow> ptr_ok h' {} (Some a) \<and> repr h' (Some a) t \<and> rc_inv h' {} R"
  by (auto simp: built_def fresh_node_alive)

lemma repr_null_or_less:
  "repr h a t \<Longrightarrow> nd \<or> null_or_less t k \<Longrightarrow> assert_null_or_less nd h a k = Inr ()"
  by (cases t)
    (auto simp: assert_null_or_less_def null_or_less_h_def deref_def assert_def split: option.splits)

lemma repr_null_or_greater:
  "repr h a t \<Longrightarrow> nd \<or> null_or_greater t k \<Longrightarrow> assert_null_or_greater nd h a k = Inr ()"
  by (cases t)
    (auto simp: assert_null_or_greater_def null_or_greater_h_def deref_def assert_def split: option.splits)

lemma mk3_h_built:
  assumes inv: "rc_inv h {} R"
    and ok: "ptr_ok h {} a" "ptr_ok h {} b" "ptr_ok h {} c" "ptr_ok h {} d"
    and rep: "repr h a ta" "repr h b tb" "repr h c tc" "repr h d td"
    and pure: "mk3 nd ta k1 tb k2 tc k3 td = Inr t"
  shows "\<exists>h' x. mk3_h nd h a k1 b k2 c k3 d = Inr (h', x) \<and> built h R h' x t
      \<and> length h' = length h + 3"
proof -
  from pure obtain tab tcd where
    as: "nd \<or> null_or_less ta k1" "nd \<or> k1 < k2" "nd \<or> null_or_less tb k2" "nd \<or> k2 < k3"
      "nd \<or> null_or_less tc k3" "nd \<or> null_or_greater td k3"
    and n: "new_node nd ta k1 tb = Inr tab" "new_node nd tc k3 td = Inr tcd"
      "new_node nd tab k2 tcd = Inr t"
    by (auto simp: mk3_def bind_result_Inr assert_Inr_iff)
  from new_node_h_built[OF inv ok(1,2) rep(1,2) n(1)] obtain h1 where
    h1: "new_node_h nd h a k1 b = Inr (h1, length h)" "built h R h1 (length h) tab"
      "length h1 = Suc (length h)"
    by blast
  note s1 = built_self[OF h1(2)]
  from new_node_h_built[OF _ built_repr(2)[OF h1(2) rep(3) ok(3)] built_repr(2)[OF h1(2) rep(4) ok(4)]
      built_repr(1)[OF h1(2) rep(3) ok(3)] built_repr(1)[OF h1(2) rep(4) ok(4)] n(2), of R] s1
  obtain h2 where
    h2: "new_node_h nd h1 c k3 d = Inr (h2, length h1)" "built h1 R h2 (length h1) tcd"
      "length h2 = Suc (length h1)"
    by blast
  note s2 = built_self[OF h2(2)]
  have ab2: "repr h2 (Some (length h)) tab" "ptr_ok h2 {} (Some (length h))"
    using built_repr[OF h2(2), of "Some (length h)" tab] s1 by auto
  from new_node_h_built[OF _ ab2(2) _ ab2(1) _ n(3), of R "Some (length h1)"] s2
  obtain h3 where
    h3: "new_node_h nd h2 (Some (length h)) k2 (Some (length h1)) = Inr (h3, length h2)"
      "built h2 R h3 (length h2) t" "length h3 = Suc (length h2)"
    by blast
  have "mk3_h nd h a k1 b k2 c k3 d = Inr (h3, length h2)"
    using as h1(1) h2(1) h3(1)
    by (simp add: mk3_h_def repr_null_or_less[OF rep(1)] repr_null_or_less[OF rep(2)]
        repr_null_or_less[OF rep(3)] repr_null_or_greater[OF rep(4)] assert_ok)
  moreover have "built h R h3 (length h2) t"
    using h1(2) h2(2) h3(2) built_trans by blast
  ultimately show ?thesis using h1(3) h2(3) h3(3) by auto
qed

lemma mk2_h_built:
  assumes inv: "rc_inv h {} R"
    and ok: "ptr_ok h {} a" "ptr_ok h {} b" "ptr_ok h {} c"
    and rep: "repr h a ta" "repr h b tb" "repr h c tc"
    and pure: "mk2 nd ta k1 tb k2 tc f = Inr t"
  shows "\<exists>h' x. mk2_h nd h a k1 b k2 c f = Inr (h', x) \<and> built h R h' x t
      \<and> length h' = length h + 2"
proof -
  from pure have
    as: "nd \<or> null_or_less ta k1" "nd \<or> k1 < k2" "nd \<or> null_or_less tb k2"
      "nd \<or> null_or_greater tc k2"
    by (auto simp: mk2_def bind_result_Inr assert_Inr_iff)
  have as': "assert_null_or_less nd h a k1 = Inr ()" "assert nd (k1 < k2) = Inr ()"
    "assert_null_or_less nd h b k2 = Inr ()" "assert_null_or_greater nd h c k2 = Inr ()"
    using as by (simp_all add: repr_null_or_less[OF rep(1)] repr_null_or_less[OF rep(2)]
        repr_null_or_greater[OF rep(3)] assert_ok)
  show ?thesis
  proof (cases f)
    case True
    from pure True obtain tbc where
      n: "new_node nd tb k2 tc = Inr tbc" "new_node nd ta k1 tbc = Inr t"
      by (auto simp: mk2_def bind_result_Inr)
    from new_node_h_built[OF inv ok(2,3) rep(2,3) n(1)] obtain h1 where
      h1: "new_node_h nd h b k2 c = Inr (h1, length h)" "built h R h1 (length h) tbc"
        "length h1 = Suc (length h)"
      by blast
    note s1 = built_self[OF h1(2)]
    from new_node_h_built[OF _ built_repr(2)[OF h1(2) rep(1) ok(1)] _
        built_repr(1)[OF h1(2) rep(1) ok(1)] _ n(2), of R "Some (length h)"] s1
    obtain h2 where
      h2: "new_node_h nd h1 a k1 (Some (length h)) = Inr (h2, length h1)"
        "built h1 R h2 (length h1) t" "length h2 = Suc (length h1)"
      by blast
    have "mk2_h nd h a k1 b k2 c f = Inr (h2, length h1)"
      using True as' h1(1) h2(1) by (simp add: mk2_h_def)
    moreover have "built h R h2 (length h1) t" using h1(2) h2(2) built_trans by blast
    ultimately show ?thesis using h1(3) h2(3) by auto
  next
    case False
    from pure False obtain tab where
      n: "new_node nd ta k1 tb = Inr tab" "new_node nd tab k2 tc = Inr t"
      by (auto simp: mk2_def bind_result_Inr)
    from new_node_h_built[OF inv ok(1,2) rep(1,2) n(1)] obtain h1 where
      h1: "new_node_h nd h a k1 b = Inr (h1, length h)" "built h R h1 (length h) tab"
        "length h1 = Suc (length h)"
      by blast
    note s1 = built_self[OF h1(2)]
    from new_node_h_built[OF _ _ built_repr(2)[OF h1(2) rep(3) ok(3)] _
        built_repr(1)[OF h1(2) rep(3) ok(3)] n(2), of R "Some (length h)"] s1
    obtain h2 where
      h2: "new_node_h nd h1 (Some (length h)) k2 c = Inr (h2, length h1)"
        "built h1 R h2 (length h1) t" "length h2 = Suc (length h1)"
      by blast
    have "mk2_h nd h a k1 b k2 c f = Inr (h2, length h1)"
      using False as' h1(1) h2(1) by (simp add: mk2_h_def)
    moreover have "built h R h2 (length h1) t" using h1(2) h2(2) built_trans by blast
    ultimately show ?thesis using h1(3) h2(3) by auto
  qed
qed

lemma built_built0: "built h R h' a t \<Longrightarrow> built0 h R h' a t"
  by (simp add: built_def built0_def)

lemma repr_Node_deref:
  assumes "repr h p (Node u ht l v r)" "rc_inv h {} R" "ptr_ok h {} p"
  shows "\<exists>c. deref h p = Inr c \<and> c_value c = v \<and> c_height c = ht
     \<and> repr h (c_left c) l \<and> repr h (c_right c) r
     \<and> ptr_ok h {} (c_left c) \<and> ptr_ok h {} (c_right c) \<and> p \<noteq> None"
proof -
  from assms(1) obtain a c where a: "p = Some a" "lookup h a = Some c"
    and c: "c_height c = ht" "c_value c = v" "repr h (c_left c) l" "repr h (c_right c) r"
    by (auto split: option.splits)
  have "alive h {} a" using assms(3) a(1) by (simp add: ptr_ok_def)
  then have "ptr_ok h {} (c_left c)" "ptr_ok h {} (c_right c)"
    using assms(2) a(2) unfolding rc_inv_def by blast+
  then show ?thesis using a c by (simp add: deref_def)
qed

lemma rebalance_h_built:
  assumes inv: "rc_inv h {} R" and ok: "ptr_ok h {} l" "ptr_ok h {} r"
    and rep: "repr h l t1" "repr h r t2"
    and pure: "MakeAndRebalanceSlowPath nd t1 v t2 b = Inr t"
  shows "\<exists>h' x. rebalance_h nd h l v r b = Inr (h', x) \<and> built h R h' x t
      \<and> length h' \<le> length h + 3"
proof (cases "b = - 2")
  case True
  from pure True obtain u hl ll lv lr where t1: "t1 = Node u hl ll lv lr"
    by (cases t1) (auto simp: MakeAndRebalanceSlowPath_def bind_result_Inr)
  from repr_Node_deref[OF rep(1)[unfolded t1] inv ok(1)] obtain lc where
    lc: "deref h l = Inr lc" "c_value lc = lv" "repr h (c_left lc) ll" "repr h (c_right lc) lr"
      "ptr_ok h {} (c_left lc)" "ptr_ok h {} (c_right lc)" "l \<noteq> None"
    by blast
  have bal: "BalanceOf_h h (c_left lc) (c_right lc) = Inr (BalanceOf ll lr)"
    using lc(3,4) by (rule repr_BalanceOf)
  show ?thesis
  proof (cases "BalanceOf ll lr = 1")
    case b1: True
    from pure True b1 obtain u' hlr lrl lrv lrr where lr: "lr = Node u' hlr lrl lrv lrr"
      by (cases lr) (auto simp: MakeAndRebalanceSlowPath_def bind_result_Inr t1)
    from repr_Node_deref[OF lc(4)[unfolded lr] inv lc(6)] obtain lrc where
      lrc: "deref h (c_right lc) = Inr lrc" "c_value lrc = lrv" "repr h (c_left lrc) lrl"
        "repr h (c_right lrc) lrr" "ptr_ok h {} (c_left lrc)" "ptr_ok h {} (c_right lrc)"
        "c_right lc \<noteq> None"
      by blast
    have p: "mk3 nd ll lv lrl lrv lrr v t2 = Inr t"
      using pure True b1 by (simp add: MakeAndRebalanceSlowPath_def bind_result_Inr t1 lr)
    from mk3_h_built[OF inv lc(5) lrc(5) lrc(6) ok(2) lc(3) lrc(3) lrc(4) rep(2) p] obtain h' x where
      "mk3_h nd h (c_left lc) lv (c_left lrc) lrv (c_right lrc) v r = Inr (h', x)"
      "built h R h' x t" "length h' = length h + 3"
      by blast
    then show ?thesis
      using True b1 lc lrc bal by (auto simp: rebalance_h_def)
  next
    case b1: False
    have p: "mk2 nd ll lv lr v t2 True = Inr t"
      using pure True b1 by (simp add: MakeAndRebalanceSlowPath_def bind_result_Inr t1)
    from mk2_h_built[OF inv lc(5) lc(6) ok(2) lc(3) lc(4) rep(2) p] obtain h' x where
      "mk2_h nd h (c_left lc) lv (c_right lc) v r True = Inr (h', x)"
      "built h R h' x t" "length h' = length h + 2"
      by blast
    then show ?thesis
      using True b1 lc bal by (auto simp: rebalance_h_def)
  qed
next
  case False
  from pure False have b2: "nd \<or> b = 2"
    by (auto simp: MakeAndRebalanceSlowPath_def bind_result_Inr assert_Inr_iff)
  from pure False obtain u hr rl rv rr where t2: "t2 = Node u hr rl rv rr"
    by (cases t2) (auto simp: MakeAndRebalanceSlowPath_def bind_result_Inr)
  from repr_Node_deref[OF rep(2)[unfolded t2] inv ok(2)] obtain rc where
    rc: "deref h r = Inr rc" "c_value rc = rv" "repr h (c_left rc) rl" "repr h (c_right rc) rr"
      "ptr_ok h {} (c_left rc)" "ptr_ok h {} (c_right rc)" "r \<noteq> None"
    by blast
  have bal: "BalanceOf_h h (c_left rc) (c_right rc) = Inr (BalanceOf rl rr)"
    using rc(3,4) by (rule repr_BalanceOf)
  show ?thesis
  proof (cases "BalanceOf rl rr = - 1")
    case b1: True
    from pure False b1 obtain u' hrl rll rlv rlr where rl: "rl = Node u' hrl rll rlv rlr"
      by (cases rl) (auto simp: MakeAndRebalanceSlowPath_def bind_result_Inr t2)
    from repr_Node_deref[OF rc(3)[unfolded rl] inv rc(5)] obtain rlc where
      rlc: "deref h (c_left rc) = Inr rlc" "c_value rlc = rlv" "repr h (c_left rlc) rll"
        "repr h (c_right rlc) rlr" "ptr_ok h {} (c_left rlc)" "ptr_ok h {} (c_right rlc)"
        "c_left rc \<noteq> None"
      by blast
    have p: "mk3 nd t1 v rll rlv rlr rv rr = Inr t"
      using pure False b1 by (simp add: MakeAndRebalanceSlowPath_def bind_result_Inr t2 rl)
    from mk3_h_built[OF inv ok(1) rlc(5) rlc(6) rc(6) rep(1) rlc(3) rlc(4) rc(4) p] obtain h' x where
      "mk3_h nd h l v (c_left rlc) rlv (c_right rlc) rv (c_right rc) = Inr (h', x)"
      "built h R h' x t" "length h' = length h + 3"
      by blast
    then show ?thesis
      using False b1 b2 rc rlc bal by (auto simp: rebalance_h_def assert_ok)
  next
    case b1: False
    have p: "mk2 nd t1 v rl rv rr False = Inr t"
      using pure False b1 by (simp add: MakeAndRebalanceSlowPath_def bind_result_Inr t2)
    from mk2_h_built[OF inv ok(1) rc(5) rc(6) rep(1) rc(3) rc(4) p] obtain h' x where
      "mk2_h nd h l v (c_left rc) rv (c_right rc) False = Inr (h', x)"
      "built h R h' x t" "length h' = length h + 2"
      by blast
    then show ?thesis
      using False b1 b2 rc bal by (auto simp: rebalance_h_def assert_ok)
  qed
qed

lemma heap_frame_fresh: "heap_frame h h' \<Longrightarrow> fresh_node h a \<Longrightarrow> fresh_node h' a"
  by (auto simp: heap_frame_def fresh_node_def)

lemma SlowPath_h_built0:
  assumes inv: "rc_inv h {} R" and ok: "ptr_ok h {} l" "ptr_ok h {} r"
    and rep: "repr h l t1" "repr h r t2"
    and pure: "MakeAndRebalanceSlowPath nd t1 v t2 b = Inr t"
    and fuel: "length h + 3 < fuel"
  shows "\<exists>h' x. MakeAndRebalanceSlowPath_h fuel nd h l v r b = Inr (h', x) \<and> built0 h R h' x t
      \<and> length h' \<le> length h + 3"
proof -
  from IncRef_inv[OF inv ok(1)] obtain h1 where
    h1: "IncRef h l = Inr h1" "rc_inv h1 {} (ptr_mset l + R)" "length h1 = length h"
      "struct_frame h h1" "\<forall>q. ptr_ok h1 {} q = ptr_ok h {} q"
    by blast
  have okr1: "ptr_ok h1 {} r" using ok(2) h1(5) by simp
  from IncRef_inv[OF h1(2) okr1] obtain h2 where
    h2: "IncRef h1 r = Inr h2" "rc_inv h2 {} (ptr_mset r + (ptr_mset l + R))" "length h2 = length h1"
      "struct_frame h1 h2" "\<forall>q. ptr_ok h2 {} q = ptr_ok h1 {} q"
    by blast
  have sf2: "struct_frame h h2" using h1(4) h2(4) by (rule struct_frame_trans)
  have ok2: "ptr_ok h2 {} l" "ptr_ok h2 {} r" using ok h1(5) h2(5) by simp_all
  have rep2: "repr h2 l t1" "repr h2 r t2"
    using rep sf2 h2(2) ok2 by (auto intro: repr_frame)
  from rebalance_h_built[OF h2(2) ok2 rep2 pure] obtain h3 x where
    h3: "rebalance_h nd h2 l v r b = Inr (h3, x)"
      "built h2 (ptr_mset r + (ptr_mset l + R)) h3 x t" "length h3 \<le> length h2 + 3"
    by blast
  have inv3: "rc_inv h3 {} (ptr_mset r + (ptr_mset l + R))" and sf3: "struct_frame h2 h3"
    and fx3: "fresh_node h3 x" and rx3: "repr h3 (Some x) t"
    using h3(2) by (simp_all add: built_def)
  have "alive_count h3 {} \<le> length h3" by (rule alive_count_le)
  then have f3: "alive_count h3 {} < fuel" using h3(3) h2(3) h1(3) fuel by simp
  from DecRef_inv[OF inv3 f3] obtain h4 where
    h4: "DecRef fuel h3 r = Inr h4" "rc_inv h4 {} (ptr_mset l + R)" "length h4 = length h3"
      "heap_frame h3 h4"
    by blast
  have "alive_count h4 {} \<le> length h4" by (rule alive_count_le)
  then have f4: "alive_count h4 {} < fuel" using h4(3) h3(3) h2(3) h1(3) fuel by simp
  from DecRef_inv[OF h4(2) f4] obtain h5 where
    h5: "DecRef fuel h4 l = Inr h5" "rc_inv h5 {} R" "length h5 = length h4"
      "heap_frame h4 h5"
    by blast
  have e: "MakeAndRebalanceSlowPath_h fuel nd h l v r b = Inr (h5, x)"
    using h1(1) h2(1) h3(1) h4(1) h5(1) by (simp add: MakeAndRebalanceSlowPath_h_def)
  have fx5: "fresh_node h5 x" using fx3 h4(4) h5(4) heap_frame_fresh by blast
  have sf35: "struct_frame h3 h5"
    using h4(4) h5(4) heap_frame_struct struct_frame_trans by blast
  have rx5: "repr h5 (Some x) t"
    using rx3 sf35 h5(2) fresh_node_alive[OF fx5] by (rule repr_frame)
  have "struct_frame h h5" using sf2 sf3 sf35 struct_frame_trans by blast
  then have "built0 h R h5 x t" using h5(2) rx5 fx5 by (simp add: built0_def)
  then show ?thesis using e h5(3) h4(3) h3(3) h2(3) h1(3) by auto
qed

lemma MakeAndRebalance_h_built0:
  assumes inv: "rc_inv h {} R" and ok: "ptr_ok h {} l" "ptr_ok h {} r"
    and rep: "repr h l t1" "repr h r t2"
    and pure: "MakeAndRebalance nd t1 v t2 = Inr t"
    and fuel: "length h + 3 < fuel"
  shows "\<exists>h' x. MakeAndRebalance_h fuel nd h l v r = Inr (h', x) \<and> built0 h R h' x t
      \<and> length h' \<le> length h + 3"
proof (cases "fast_path (BalanceOf t1 t2)")
  case True
  then have "new_node nd t1 v t2 = Inr t" using pure by (simp add: MakeAndRebalance_def)
  from new_node_h_built[OF inv ok rep this] show ?thesis
    using True by (auto simp: MakeAndRebalance_h_def repr_BalanceOf[OF rep] built_built0)
next
  case False
  then have "MakeAndRebalanceSlowPath nd t1 v t2 (BalanceOf t1 t2) = Inr t"
    using pure by (simp add: MakeAndRebalance_def)
  from SlowPath_h_built0[OF inv ok rep this fuel] obtain h' x where
    r: "MakeAndRebalanceSlowPath_h fuel nd h l v r (BalanceOf t1 t2) = Inr (h', x)"
      "built0 h R h' x t" "length h' \<le> length h + 3"
    by blast
  show ?thesis
    using False r by (auto simp: MakeAndRebalance_h_def repr_BalanceOf[OF rep])
qed

lemma reach_alive:
  assumes "rc_inv h {} R" "reach h R a"
  shows "alive h {} a"
  using assms(2)
proof (induction rule: reach.induct)
  case (reach_root a)
  then show ?case using assms(1) unfolding rc_inv_def by auto
next
  case (reach_left b c a)
  then have "ptr_ok h {} (c_left c)" using assms(1) unfolding rc_inv_def by blast
  then show ?case using reach_left by (simp add: ptr_ok_def)
next
  case (reach_right b c a)
  then have "ptr_ok h {} (c_right c)" using assms(1) unfolding rc_inv_def by blast
  then show ?case using reach_right by (simp add: ptr_ok_def)
qed

lemma alive_frame_fields:
  assumes "struct_frame h h'" "alive h' {} b" "lookup h b = Some c"
  shows "\<exists>c'. lookup h' b = Some c' \<and> same_fields c c'"
proof -
  from assms(2) obtain c' where c': "lookup h' b = Some c'" by (auto simp: alive_def)
  have "b < length h" using assms(3) by (rule lookup_Some_length)
  then obtain c0 where "lookup h b = Some c0" "same_fields c0 c'"
    using assms(1) c' unfolding struct_frame_def by blast
  then show ?thesis using c' assms(3) by simp
qed

lemma reach_frame:
  assumes "reach h R a" "struct_frame h h'" "rc_inv h' {} R"
  shows "reach h' R a"
  using assms(1)
proof (induction rule: reach.induct)
  case (reach_root a)
  then show ?case by (rule reach.reach_root)
next
  case (reach_left b c a)
  have "alive h' {} b" using assms(3) reach_left.IH by (rule reach_alive)
  from alive_frame_fields[OF assms(2) this reach_left.hyps(2)] obtain c' where
    "lookup h' b = Some c'" "same_fields c c'" by blast
  then show ?case using reach_left.IH reach_left.hyps(3)
    by (auto simp: same_fields_def intro: reach.reach_left)
next
  case (reach_right b c a)
  have "alive h' {} b" using assms(3) reach_right.IH by (rule reach_alive)
  from alive_frame_fields[OF assms(2) this reach_right.hyps(2)] obtain c' where
    "lookup h' b = Some c'" "same_fields c c'" by blast
  then show ?case using reach_right.IH reach_right.hyps(3)
    by (auto simp: same_fields_def intro: reach.reach_right)
qed

lemma reach_refcount:
  assumes "rc_inv h {} R" "reach h R a"
  shows "\<exists>c. lookup h a = Some c \<and> 1 \<le> c_refcount c"
proof -
  have al: "alive h {} a" using assms by (rule reach_alive)
  then obtain c where c: "lookup h a = Some c" by (auto simp: alive_def)
  have rc: "c_refcount c = int (indeg h {} a + count R a)"
    using assms(1) al c unfolding rc_inv_def by blast
  have "1 \<le> indeg h {} a + count R a"
    using assms(2)
  proof (cases rule: reach.cases)
    case reach_root
    then show ?thesis by (simp add: Suc_le_eq)
  next
    case (reach_left b cb)
    have b: "b < length h" "h ! b = Some cb"
      using reach_left(2) by (auto simp: lookup_def split: if_splits)
    have "indeg h {} a = indeg h (insert b {}) a + cell_indeg (h ! b) a"
      using b(1) by (intro indeg_split) auto
    then show ?thesis using b(2) reach_left(3) by simp
  next
    case (reach_right b cb)
    have b: "b < length h" "h ! b = Some cb"
      using reach_right(2) by (auto simp: lookup_def split: if_splits)
    have "indeg h {} a = indeg h (insert b {}) a + cell_indeg (h ! b) a"
      using b(1) by (intro indeg_split) auto
    then show ?thesis using b(2) reach_right(3) by simp
  qed
  then show ?thesis using c rc by simp
qed

lemma new_leaf_h_built0:
  assumes "rc_inv h {} R"
  shows "built0 h R (fst (new_leaf_h h x)) (snd (new_leaf_h h x)) (new_leaf x)"
proof -
  let ?c = "\<lparr>c_refcount = 0, c_height = 1, c_left = None, c_right = None, c_value = x\<rparr>"
  have "rc_inv h {} (ptr_mset None + (ptr_mset None + R))" using assms by simp
  then have "rc_inv (h @ [Some ?c]) {} R" by (rule alloc_inv)
  moreover have "struct_frame h (h @ [Some ?c])"
    by (auto simp: struct_frame_def lookup_append)
  ultimately show ?thesis
    by (simp add: built0_def new_leaf_h_def new_leaf_def lookup_append fresh_node_def)
qed

lemma Rec_h_built0:
  assumes "rc_inv h {} R" "repr h p t" "\<forall>a. p = Some a \<longrightarrow> reach h R a"
    and "Rec nd t x = Inr t'" "length h + 3 * shape_height t + 3 < fuel"
  shows "\<exists>h' a. Rec_h fuel nd h p x = Inr (h', a) \<and> built0 h R h' a t'
      \<and> length h' \<le> length h + 3 * shape_height t + 1"
  using assms
proof (induction t arbitrary: h p fuel t')
  case Null
  then have p: "p = None" and t': "t' = new_leaf x" by auto
  show ?case
    using new_leaf_h_built0[OF Null.prems(1), of x] unfolding p t'
    by (auto simp: new_leaf_h_def)
next
  case (Node u ht l v r)
  from Node.prems(2) obtain a where a: "p = Some a" by (auto split: option.splits)
  have ra: "reach h R a" using Node.prems(3) a by simp
  have ok: "ptr_ok h {} p" using reach_alive[OF Node.prems(1) ra] a by (simp add: ptr_ok_def)
  from repr_Node_deref[OF Node.prems(2) Node.prems(1) ok] obtain c where
    c: "deref h p = Inr c" "c_value c = v" "repr h (c_left c) l" "repr h (c_right c) r"
      "ptr_ok h {} (c_left c)" "ptr_ok h {} (c_right c)"
    by blast
  have lc: "lookup h a = Some c" using c(1) a by (auto simp: deref_def split: option.splits)
  obtain n where n: "fuel = Suc n" using Node.prems(5) by (cases fuel) auto
  have sh: "shape_height l + 1 \<le> shape_height (Node u ht l v r)"
    "shape_height r + 1 \<le> shape_height (Node u ht l v r)"
    by simp_all
  show ?case
  proof (cases "x < v")
    case True
    from Node.prems(4) True obtain l' where
      pl: "Rec nd l x = Inr l'" and pm: "MakeAndRebalance nd l' v r = Inr t'"
      by (auto simp: bind_result_Inr)
    have rl: "\<forall>b. c_left c = Some b \<longrightarrow> reach h R b"
      using ra lc by (auto intro: reach.reach_left)
    have fl: "length h + 3 * shape_height l + 3 < n" using Node.prems(5) n sh(1) by simp
    from Node.IH(1)[OF Node.prems(1) c(3) rl pl fl] obtain h1 a1 where
      h1: "Rec_h n nd h (c_left c) x = Inr (h1, a1)" "built0 h R h1 a1 l'"
        "length h1 \<le> length h + 3 * shape_height l + 1"
      by blast
    have inv1: "rc_inv h1 {} R" and sf1: "struct_frame h h1" and rep1: "repr h1 (Some a1) l'"
      and ok1: "ptr_ok h1 {} (Some a1)"
      using h1(2) by (simp_all add: built0_def fresh_node_alive)
    have "alive h1 {} a" using inv1 reach_frame[OF ra sf1 inv1] by (rule reach_alive)
    from alive_frame_fields[OF sf1 this lc] obtain c1 where
      c1: "lookup h1 a = Some c1" "same_fields c c1" by blast
    have "ptr_ok h1 {} (c_right c1)"
      using inv1 \<open>alive h1 {} a\<close> c1(1) unfolding rc_inv_def by blast
    then have okr: "ptr_ok h1 {} (c_right c)" using c1(2) by (simp add: same_fields_def)
    have repr1: "repr h1 (c_right c) r" using c(4) sf1 inv1 okr by (rule repr_frame)
    have fm: "length h1 + 3 < n" using h1(3) Node.prems(5) n sh(1) by simp
    from MakeAndRebalance_h_built0[OF inv1 ok1 okr rep1 repr1 pm fm] obtain h2 a2 where
      h2: "MakeAndRebalance_h n nd h1 (Some a1) v (c_right c) = Inr (h2, a2)"
        "built0 h1 R h2 a2 t'" "length h2 \<le> length h1 + 3"
      by blast
    have "Rec_h fuel nd h p x = Inr (h2, a2)"
      using True c(1,2) h1(1) h2(1) unfolding a n by simp
    moreover have "built0 h R h2 a2 t'"
      using h2(2) sf1 unfolding built0_def by (auto intro: struct_frame_trans)
    moreover have "length h2 \<le> length h + 3 * shape_height (Node u ht l v r) + 1"
      using h2(3) h1(3) sh(1) by simp
    ultimately show ?thesis by blast
  next
    case False
    from Node.prems(4) False obtain r' where
      pr: "Rec nd r x = Inr r'" and pm: "MakeAndRebalance nd l v r' = Inr t'"
      by (auto simp: bind_result_Inr)
    have rr: "\<forall>b. c_right c = Some b \<longrightarrow> reach h R b"
      using ra lc by (auto intro: reach.reach_right)
    have fr: "length h + 3 * shape_height r + 3 < n" using Node.prems(5) n sh(2) by simp
    from Node.IH(2)[OF Node.prems(1) c(4) rr pr fr] obtain h1 a1 where
      h1: "Rec_h n nd h (c_right c) x = Inr (h1, a1)" "built0 h R h1 a1 r'"
        "length h1 \<le> length h + 3 * shape_height r + 1"
      by blast
    have inv1: "rc_inv h1 {} R" and sf1: "struct_frame h h1" and rep1: "repr h1 (Some a1) r'"
      and ok1: "ptr_ok h1 {} (Some a1)"
      using h1(2) by (simp_all add: built0_def fresh_node_alive)
    have "alive h1 {} a" using inv1 reach_frame[OF ra sf1 inv1] by (rule reach_alive)
    from alive_frame_fields[OF sf1 this lc] obtain c1 where
      c1: "lookup h1 a = Some c1" "same_fields c c1" by blast
    have "ptr_ok h1 {} (c_left c1)"
      using inv1 \<open>alive h1 {} a\<close> c1(1) unfolding rc_inv_def by blast
    then have okl: "ptr_ok h1 {} (c_left c)" using c1(2) by (simp add: same_fields_def)
    have repl1: "repr h1 (c_left c) l" using c(3) sf1 inv1 okl by (rule repr_frame)
    have fm: "length h1 + 3 < n" using h1(3) Node.prems(5) n sh(2) by simp
    from MakeAndRebalance_h_built0[OF inv1 okl ok1 repl1 rep1 pm fm] obtain h2 a2 where
      h2: "MakeAndRebalance_h n nd h1 (c_left c) v (Some a1) = Inr (h2, a2)"
        "built0 h1 R h2 a2 t'" "length h2 \<le> length h1 + 3"
      by blast
    have "Rec_h fuel nd h p x = Inr (h2, a2)"
      using False c(1,2) h1(1) h2(1) unfolding a n by simp
    moreover have "built0 h R h2 a2 t'"
      using h2(2) sf1 unfolding built0_def by (auto intro: struct_frame_trans)
    moreover have "length h2 \<le> length h + 3 * shape_height (Node u ht l v r) + 1"
      using h2(3) h1(3) sh(2) by simp
    ultimately show ?thesis by blast
  qed
qed

lemma Insert_h_refines:
  assumes inv: "rc_inv h {} (tree_roots tree + R0)" and rep: "repr_tree h tree T"
    and pure: "Insert nd T x = Inr T'"
    and fuel: "length h + 3 * tree_height T + 3 < fuel"
  shows "\<exists>h' a. Insert_h fuel nd h tree x = Inr (h', Some (Some a))
      \<and> rc_inv h' {} (add_mset a R0) \<and> repr_tree h' (Some (Some a)) T'
      \<and> struct_frame h h' \<and> length h' \<le> length h + 3 * tree_height T + 1"
proof (cases tree)
  case None
  then have T: "T = None" and T': "T' = Some (new_leaf x)"
    using rep pure by (auto simp: repr_tree_def Insert_def)
  have inv0: "rc_inv h {} R0" using inv None by (simp add: tree_roots_def)
  obtain h1 a where l: "new_leaf_h h x = (h1, a)" by (cases "new_leaf_h h x")
  from new_leaf_h_built0[OF inv0, of x] have b: "built0 h R0 h1 a (new_leaf x)"
    by (simp add: l)
  then have b': "rc_inv h1 {} R0" "struct_frame h h1" "repr h1 (Some a) (new_leaf x)"
    "fresh_node h1 a"
    by (simp_all add: built0_def)
  from IncRef_inv[OF b'(1) fresh_node_alive[OF b'(4)]] obtain h2 where
    h2: "IncRef h1 (Some a) = Inr h2" "rc_inv h2 {} (ptr_mset (Some a) + R0)"
      "length h2 = length h1" "struct_frame h1 h2" "\<forall>q. ptr_ok h2 {} q = ptr_ok h1 {} q"
    by blast
  have "repr h2 (Some a) (new_leaf x)"
    using b'(3) h2(4) h2(2) by (rule repr_frame) (simp add: h2(5) fresh_node_alive[OF b'(4)])
  moreover have "Insert_h fuel nd h tree x = Inr (h2, Some (Some a))"
    using None l h2(1) by (simp add: Insert_h_def)
  moreover have "length h1 = Suc (length h)" using l by (auto simp: new_leaf_h_def)
  ultimately show ?thesis
    using h2(2,3) struct_frame_trans[OF b'(2) h2(4)] by (simp add: repr_tree_def T')
next
  case (Some p)
  then obtain t where T: "T = Some t" and rp: "repr h p t"
    using rep by (auto simp: repr_tree_def split: option.splits)
  from pure T obtain t' where T': "T' = Some t'" and pr: "Rec nd t x = Inr t'"
    by (auto simp: Insert_def bind_result_Inr)
  let ?R = "ptr_mset p + R0"
  have inv0: "rc_inv h {} ?R" using inv Some by (simp add: tree_roots_def)
  have rch: "\<forall>a. p = Some a \<longrightarrow> reach h ?R a" by (auto intro: reach.reach_root)
  have f: "length h + 3 * shape_height t + 3 < fuel" using fuel T by (simp add: tree_height_def)
  from Rec_h_built0[OF inv0 rp rch pr f] obtain h1 a where
    h1: "Rec_h fuel nd h p x = Inr (h1, a)" "built0 h ?R h1 a t'"
      "length h1 \<le> length h + 3 * shape_height t + 1"
    by blast
  have b: "rc_inv h1 {} ?R" "struct_frame h h1" "repr h1 (Some a) t'" "fresh_node h1 a"
    using h1(2) by (simp_all add: built0_def)
  have "alive_count h1 {} \<le> length h1" by (rule alive_count_le)
  then have f1: "alive_count h1 {} < fuel" using h1(3) f by simp
  from DecRef_inv[OF b(1) f1] obtain h2 where
    h2: "DecRef fuel h1 p = Inr h2" "rc_inv h2 {} R0" "length h2 = length h1" "heap_frame h1 h2"
    by blast
  have fx2: "fresh_node h2 a" using h2(4) b(4) by (rule heap_frame_fresh)
  have r2: "repr h2 (Some a) t'"
    using b(3) heap_frame_struct[OF h2(4)] h2(2) fresh_node_alive[OF fx2] by (rule repr_frame)
  from IncRef_inv[OF h2(2) fresh_node_alive[OF fx2]] obtain h3 where
    h3: "IncRef h2 (Some a) = Inr h3" "rc_inv h3 {} (ptr_mset (Some a) + R0)"
      "length h3 = length h2" "struct_frame h2 h3" "\<forall>q. ptr_ok h3 {} q = ptr_ok h2 {} q"
    by blast
  have "repr h3 (Some a) t'"
    using r2 h3(4) h3(2) by (rule repr_frame) (simp add: h3(5) fresh_node_alive[OF fx2])
  moreover have "Insert_h fuel nd h tree x = Inr (h3, Some (Some a))"
    using Some h1(1) h2(1) h3(1) by (simp add: Insert_h_def)
  moreover have "struct_frame h h3"
    using b(2) heap_frame_struct[OF h2(4)] h3(4) struct_frame_trans by blast
  ultimately show ?thesis
    using h3(2,3) h2(3) h1(3) by (simp add: repr_tree_def T' T tree_height_def)
qed

lemma retained_repr:
  assumes "repr h (Some q) s" "struct_frame h h'" "rc_inv h' {} R" "q \<in># R"
  shows "repr h' (Some q) s"
proof -
  have "ptr_ok h' {} (Some q)" using assms(3,4) unfolding rc_inv_def by (auto simp: ptr_ok_def)
  with assms(1,2,3) show ?thesis by (rule repr_frame)
qed

lemma LowerBound_loop_h_frame:
  assumes "repr h p s" "struct_frame h h'" "rc_inv h' {} R" "ptr_ok h' {} p"
  shows "LowerBound_loop_h f h' p best str = LowerBound_loop_h f h p best str"
  using assms(1,4)
proof (induction s arbitrary: p best f)
  case Null
  then show ?case by simp
next
  case (Node u ht l v r)
  from Node.prems(1) obtain a c where a: "p = Some a" "lookup h a = Some c"
    and c: "repr h (c_left c) l" "repr h (c_right c) r"
    by (auto split: option.splits)
  have al: "alive h' {} a" using Node.prems(2) a(1) by (simp add: ptr_ok_def)
  from alive_frame_fields[OF assms(2) al a(2)] obtain c' where
    c': "lookup h' a = Some c'" "same_fields c c'" by blast
  have ok: "ptr_ok h' {} (c_left c)" "ptr_ok h' {} (c_right c)"
    using assms(3) al c'(1) c'(2) unfolding rc_inv_def same_fields_def by metis+
  show ?case
  proof (cases f)
    case 0
    then show ?thesis using a(1) by simp
  next
    case (Suc n)
    show ?thesis
      using Node.IH(1)[OF c(1) ok(1)] Node.IH(2)[OF c(2) ok(2)] a c' unfolding Suc
      by (simp add: deref_def same_fields_def)
  qed
qed

lemma LowerBound_loop_h_refines:
  assumes "repr h p t" "shape_height t \<le> f" "key_at h best = node_key tb"
  shows "\<exists>res. LowerBound_loop_h f h p best str = Inr res
      \<and> key_at h res = node_key (LowerBound_loop t tb str)"
  using assms
proof (induction t arbitrary: p best tb f)
  case Null
  then show ?case by simp
next
  case (Node u ht l v r)
  from Node.prems(1) obtain a c where a: "p = Some a" "lookup h a = Some c"
    and c: "c_value c = v" "repr h (c_left c) l" "repr h (c_right c) r"
    by (auto split: option.splits)
  obtain n where n: "f = Suc n" "shape_height l \<le> n" "shape_height r \<le> n"
    using Node.prems(2) by (cases f) auto
  have k: "key_at h (Some a) = node_key (Node u ht l v r)"
    using a(2) c(1) by (simp add: key_at_def)
  show ?case
  proof (cases "v < str")
    case True
    then show ?thesis
      using Node.IH(2)[OF c(3) n(3) Node.prems(3)] a c(1) unfolding n(1)
      by (simp add: deref_def)
  next
    case False
    then show ?thesis
      using Node.IH(1)[OF c(2) n(2) k] a c(1) unfolding n(1)
      by (simp add: deref_def)
  qed
qed

lemma LowerBound_h_refines:
  assumes "repr h (Some a) t" "shape_height t \<le> f"
  shows "\<exists>res n. LowerBound_h f h (Some (Some a)) str = Inr res
      \<and> LowerBound (Some t) str = Inr n \<and> key_at h res = node_key n"
proof -
  from assms(1) obtain u ht l v r c where t: "t = Node u ht l v r"
    and c: "lookup h a = Some c" "c_value c = v"
    by (cases t) (auto split: option.splits)
  let ?tb = "if v \<ge> str then t else Null"
  let ?b = "if v \<ge> str then Some a else None"
  have "key_at h ?b = node_key ?tb" using c by (simp add: key_at_def t)
  from LowerBound_loop_h_refines[OF assms this, where str = str] show ?thesis
    using c by (auto simp: LowerBound_h_def LowerBound_def deref_def t)
qed

lemma lookup_update_None: "lookup (h[a := None]) a = None"
  by (simp add: lookup_def)

lemma DecRef_target:
  assumes "DecRef fuel h (Some a) = Inr h'" "lookup h a = Some c"
  shows "lookup h' a = (if c_refcount c = 1 then None else Some (c\<lparr>c_refcount := c_refcount c - 1\<rparr>))"
proof (cases fuel)
  case 0
  then show ?thesis using assms by simp
next
  case (Suc n)
  show ?thesis
  proof (cases "c_refcount c = 1")
    case True
    then obtain h3 where "h' = h3[a := None]"
      using assms unfolding Suc by (auto simp: Let_def bind_result_Inr)
    then show ?thesis using True by (simp add: lookup_update_None)
  next
    case False
    then have "h' = h[a := Some (c\<lparr>c_refcount := c_refcount c - 1\<rparr>)]"
      using assms unfolding Suc by (auto simp: Let_def)
    then show ?thesis using False lookup_Some_length[OF assms(2)] by (simp add: lookup_update)
  qed
qed

lemma Insert_keys:
  "Insert nd T k = Inr T1 \<Longrightarrow> mset (keys_of T1) = add_mset k (mset (keys_of T))"
  by (auto simp: Insert_def keys_of_def new_leaf_def bind_result_Inr split: option.splits
      dest: Rec_inorder)

lemma shape_height_le_count: "shape_height t \<le> node_count_of t"
  by (induction t) auto

lemma tree_height_le_keys: "tree_height T \<le> length (keys_of T)"
  by (auto simp: tree_height_def keys_of_def node_count_inorder[symmetric] shape_height_le_count
      split: option.splits)

lemma InsertAll_h_refines:
  assumes "rc_inv h {} (tree_roots tree + R0)" "repr_tree h tree T"
    and "InsertAll nd T ks = Inr T'"
    and "length h + length ks * (3 * (length (keys_of T) + length ks) + 5) < fuel"
  shows "\<exists>h' tree'. InsertAll_h fuel nd h tree ks = Inr (h', tree')
      \<and> rc_inv h' {} (tree_roots tree' + R0) \<and> repr_tree h' tree' T' \<and> struct_frame h h'"
  using assms
proof (induction ks arbitrary: h tree T)
  case Nil
  then show ?case by simp
next
  case (Cons k ks)
  from Cons.prems(3) obtain T1 where
    p1: "Insert nd T k = Inr T1" and p2: "InsertAll nd T1 ks = Inr T'"
    by (auto simp: bind_result_Inr)
  let ?n = "length (keys_of T)"
  have th: "tree_height T \<le> ?n" by (rule tree_height_le_keys)
  have f1: "length h + 3 * tree_height T + 3 < fuel"
  proof -
    have "length h + 3 * tree_height T + 3 \<le> length h + (3 * (?n + length (k # ks)) + 5)"
      using th by simp
    also have "\<dots> \<le> length h + length (k # ks) * (3 * (?n + length (k # ks)) + 5)"
      by simp
    finally show ?thesis using Cons.prems(4) by simp
  qed
  from Insert_h_refines[OF Cons.prems(1,2) p1 f1] obtain h1 a where
    h1: "Insert_h fuel nd h tree k = Inr (h1, Some (Some a))"
      "rc_inv h1 {} (add_mset a R0)" "repr_tree h1 (Some (Some a)) T1"
      "struct_frame h h1" "length h1 \<le> length h + 3 * tree_height T + 1"
    by blast
  have k1: "length (keys_of T1) = Suc ?n"
    using Insert_keys[OF p1] by (metis size_mset size_add_mset)
  have inv1: "rc_inv h1 {} (tree_roots (Some (Some a)) + R0)"
    using h1(2) by (simp add: tree_roots_def)
  have f2: "length h1 + length ks * (3 * (length (keys_of T1) + length ks) + 5) < fuel"
  proof -
    have "length h1 + length ks * (3 * (length (keys_of T1) + length ks) + 5)
        \<le> length h + (3 * ?n + 1) + length ks * (3 * (?n + length (k # ks)) + 5)"
      using h1(5) th k1 by simp
    also have "\<dots> \<le> length h + length (k # ks) * (3 * (?n + length (k # ks)) + 5)"
      by simp
    finally show ?thesis using Cons.prems(4) by simp
  qed
  from Cons.IH[OF inv1 h1(3) p2 f2] obtain h' tree' where
    "InsertAll_h fuel nd h1 (Some (Some a)) ks = Inr (h', tree')"
    "rc_inv h' {} (tree_roots tree' + R0)" "repr_tree h' tree' T'" "struct_frame h1 h'"
    by blast
  then show ?case using h1(1,4) by (auto intro: struct_frame_trans)
qed

lemma rc_inv_empty: "rc_inv [] {} {#}"
  by (simp add: rc_inv_def alive_def lookup_def)

lemmas heap_eval = Insert_h_def new_leaf_h_def new_node_h_def MakeAndRebalance_h_def
  MakeAndRebalanceSlowPath_h_def rebalance_h_def mk2_h_def mk3_h_def IncRef_def deref_def
  HeightOf_h_def BalanceOf_h_def lookup_def assert_null_or_less_def assert_null_or_greater_def
  null_or_less_h_def null_or_greater_h_def assert_def fast_path_mod Let_def

lemma LowerBound_h_frame:
  assumes "repr h (Some q) s" "struct_frame h h'" "rc_inv h' {} R" "q \<in># R"
  shows "LowerBound_h f h' (Some (Some q)) str = LowerBound_h f h (Some (Some q)) str"
proof -
  have ok: "ptr_ok h' {} (Some q)" using assms(3,4) unfolding rc_inv_def by (auto simp: ptr_ok_def)
  show ?thesis
  proof (cases s)
    case Null
    then show ?thesis using assms(1) by simp
  next
    case (Node u ht l v r)
    then obtain c where c: "lookup h q = Some c" using assms(1) by (auto split: option.splits)
    have "alive h' {} q" using ok by (simp add: ptr_ok_def)
    from alive_frame_fields[OF assms(2) this c] obtain c' where
      c': "lookup h' q = Some c'" "same_fields c c'" by blast
    show ?thesis
      using c c' LowerBound_loop_h_frame[OF assms(1,2,3) ok]
      by (simp add: LowerBound_h_def deref_def same_fields_def)
  qed
qed

text \<open>
  C2. Let a heap satisfy the reference-counting invariant, with the tree's root handle and
  the handles \<open>R0\<close> that the caller retains, and let the tree be a well-formed AVL tree with
  strictly increasing keys that does not hold \<open>k\<close>. Then \<open>Insert(k)\<close> returns, the new tree
  holds exactly the old keys and \<open>k\<close>, and the invariant holds again with the new root
  handle. No surviving node has changed but in its refcount, and at most
  \<open>3 * height + 1\<close> nodes were allocated. Every version the caller retains a handle to is
  still represented at that handle, unmodified: \<open>LowerBound\<close> on it returns the very node it
  returned before the insert, for every query, and that node holds the answer of the
  retained version.
\<close>

theorem Insert_persistent:
  assumes "rc_inv h {} (tree_roots tree + R0)" "repr_tree h tree T" "tree_inv T"
    and "sorted_wrt (<) (keys_of T)" "k \<notin> set (keys_of T)"
    and "length h + 3 * tree_height T + 3 < fuel"
  shows "\<exists>h' tree' T'. Insert_h fuel ndebug h tree k = Inr (h', tree')
    \<and> Insert ndebug T k = Inr T' \<and> repr_tree h' tree' T'
    \<and> set (keys_of T') = insert k (set (keys_of T)) \<and> tree_inv T'
    \<and> rc_inv h' {} (tree_roots tree' + R0)
    \<and> struct_frame h h' \<and> length h' \<le> length h + 3 * tree_height T + 1
    \<and> (\<forall>q s. q \<in># R0 \<and> repr h (Some q) s \<longrightarrow>
          repr h' (Some q) s
          \<and> (\<forall>f str. LowerBound_h f h' (Some (Some q)) str = LowerBound_h f h (Some (Some q)) str)
          \<and> (\<forall>f str. shape_height s \<le> f \<longrightarrow>
                (\<exists>res n. LowerBound_h f h' (Some (Some q)) str = Inr res
                   \<and> LowerBound (Some s) str = Inr n \<and> key_at h' res = node_key n)))"
proof -
  from Insert_inv[OF assms(3), of ndebug k] assms(4,5) obtain n where
    n: "Insert ndebug T k = Inr (Some n)" "tree_inv (Some n)"
      "mset (keys_of (Some n)) = add_mset k (mset (keys_of T))"
    by blast
  from Insert_h_refines[OF assms(1,2) n(1) assms(6)] obtain h' a where
    h': "Insert_h fuel ndebug h tree k = Inr (h', Some (Some a))"
      "rc_inv h' {} (add_mset a R0)" "repr_tree h' (Some (Some a)) (Some n)"
      "struct_frame h h'" "length h' \<le> length h + 3 * tree_height T + 1"
    by blast
  have keys: "set (keys_of (Some n)) = insert k (set (keys_of T))"
    using n(3) by (metis set_mset_add_mset_insert set_mset_mset)
  have inv': "rc_inv h' {} (tree_roots (Some (Some a)) + R0)"
    using h'(2) by (simp add: tree_roots_def)
  have ret: "repr h' (Some q) s
          \<and> (\<forall>f str. LowerBound_h f h' (Some (Some q)) str = LowerBound_h f h (Some (Some q)) str)
          \<and> (\<forall>f str. shape_height s \<le> f \<longrightarrow>
                (\<exists>res n. LowerBound_h f h' (Some (Some q)) str = Inr res
                   \<and> LowerBound (Some s) str = Inr n \<and> key_at h' res = node_key n))"
    if q: "q \<in># R0" "repr h (Some q) s" for q s
  proof -
    have qa: "q \<in># add_mset a R0" using q(1) by simp
    have r: "repr h' (Some q) s" using q(2) h'(4) h'(2) qa by (rule retained_repr)
    have "LowerBound_h f h' (Some (Some q)) str = LowerBound_h f h (Some (Some q)) str" for f str
      using q(2) h'(4) h'(2) qa by (rule LowerBound_h_frame)
    moreover have "\<exists>res n. LowerBound_h f h' (Some (Some q)) str = Inr res
        \<and> LowerBound (Some s) str = Inr n \<and> key_at h' res = node_key n"
      if "shape_height s \<le> f" for f str
      using r that by (rule LowerBound_h_refines)
    ultimately show ?thesis using r by blast
  qed
  show ?thesis
    using h'(1) n(1) h'(3) keys n(2) inv' h'(4,5) ret by blast
qed

text \<open>
  Scenario 3 of the specification: \<open>x\<close> is inserted, the caller copies the root handle
  (refcount 2), and \<open>y\<close> is inserted. The retained handle still leads to the one-node tree,
  and \<open>LowerBound("a")\<close> on it returns the node of \<open>x\<close> as before.
\<close>

theorem Insert_persistent_witness:
  "Insert_h 8 False
     [Some \<lparr>c_refcount = 2, c_height = 1, c_left = None, c_right = None, c_value = ''x''\<rparr>]
     (Some (Some 0)) ''y''
     = Inr ([Some \<lparr>c_refcount = 1, c_height = 1, c_left = None, c_right = None, c_value = ''x''\<rparr>,
             Some \<lparr>c_refcount = 1, c_height = 1, c_left = None, c_right = None, c_value = ''y''\<rparr>,
             Some \<lparr>c_refcount = 1, c_height = 2, c_left = None, c_right = Some 1, c_value = ''x''\<rparr>],
            Some (Some 2))
   \<and> repr [Some \<lparr>c_refcount = 1, c_height = 1, c_left = None, c_right = None, c_value = ''x''\<rparr>,
            Some \<lparr>c_refcount = 1, c_height = 1, c_left = None, c_right = None, c_value = ''y''\<rparr>,
            Some \<lparr>c_refcount = 1, c_height = 2, c_left = None, c_right = Some 1, c_value = ''x''\<rparr>]
        (Some 0) (new_leaf ''x'')
   \<and> LowerBound_h 1
        [Some \<lparr>c_refcount = 1, c_height = 1, c_left = None, c_right = None, c_value = ''x''\<rparr>,
         Some \<lparr>c_refcount = 1, c_height = 1, c_left = None, c_right = None, c_value = ''y''\<rparr>,
         Some \<lparr>c_refcount = 1, c_height = 2, c_left = None, c_right = Some 1, c_value = ''x''\<rparr>]
        (Some (Some 0)) ''a''
     = LowerBound_h 1
        [Some \<lparr>c_refcount = 2, c_height = 1, c_left = None, c_right = None, c_value = ''x''\<rparr>]
        (Some (Some 0)) ''a''
   \<and> LowerBound_h 1
        [Some \<lparr>c_refcount = 2, c_height = 1, c_left = None, c_right = None, c_value = ''x''\<rparr>]
        (Some (Some 0)) ''a'' = Inr (Some 0)"
proof -
  let ?x1 = "\<lparr>c_refcount = 1, c_height = 1, c_left = None, c_right = None, c_value = ''x''\<rparr>"
  let ?x2 = "\<lparr>c_refcount = 2, c_height = 1, c_left = None, c_right = None, c_value = ''x''\<rparr>"
  let ?h' = "[Some ?x1,
     Some \<lparr>c_refcount = 1, c_height = 1, c_left = None, c_right = None, c_value = ''y''\<rparr>,
     Some \<lparr>c_refcount = 1, c_height = 2, c_left = None, c_right = Some 1, c_value = ''x''\<rparr>]"
  have i1: "Insert_h 4 False [] None ''x'' = Inr ([Some ?x1], Some (Some 0))"
    by (simp add: heap_eval)
  from Insert_h_refines[of "[]" None "{#}" None False "''x''" "Some (new_leaf ''x'')" 4]
  have inv1: "rc_inv [Some ?x1] {} {#0#}" and rep1: "repr [Some ?x1] (Some 0) (new_leaf ''x'')"
    unfolding i1
    by (simp_all add: rc_inv_empty tree_roots_def repr_tree_def Insert_def tree_height_def)
  have "ptr_ok [Some ?x1] {} (Some 0)" by (simp add: ptr_ok_def alive_def lookup_def)
  from IncRef_inv[OF inv1 this]
  have inv2: "rc_inv [Some ?x2] {} (tree_roots (Some (Some 0)) + {#0#})"
    by (simp add: IncRef_def lookup_def tree_roots_def)
  have rep2: "repr_tree [Some ?x2] (Some (Some 0)) (Some (new_leaf ''x''))"
    by (simp add: repr_tree_def new_leaf_def lookup_def)
  have hyp: "tree_inv (Some (new_leaf ''x''))" "sorted_wrt (<) (keys_of (Some (new_leaf ''x'')))"
    "''y'' \<notin> set (keys_of (Some (new_leaf ''x'')))"
    "length [Some ?x2] + 3 * tree_height (Some (new_leaf ''x'')) + 3 < 8"
    by (simp_all add: tree_inv_def keys_of_def new_leaf_def tree_height_def)
  have i2: "Insert_h 8 False [Some ?x2] (Some (Some 0)) ''y'' = Inr (?h', Some (Some 2))"
    by (simp add: heap_eval numeral_eq_Suc)
  have old: "repr [Some ?x2] (Some 0) (new_leaf ''x'')" by (simp add: new_leaf_def lookup_def)
  from Insert_persistent [OF inv2 rep2 hyp, of False] old
  have "repr ?h' (Some 0) (new_leaf ''x'')
    \<and> LowerBound_h 1 ?h' (Some (Some 0)) ''a'' = LowerBound_h 1 [Some ?x2] (Some (Some 0)) ''a''"
    unfolding i2 by auto
  moreover have "LowerBound_h 1 [Some ?x2] (Some (Some 0)) ''a'' = Inr (Some 0)"
    by (simp add: LowerBound_h_def deref_def lookup_def)
  ultimately show ?thesis using i2 by blast
qed

text \<open>
  C6 (amended). The driver's inserts of pairwise distinct keys, from the empty heap, keep
  the reference-counting invariant, and under the invariant every node reachable from a
  live handle is allocated with refcount \<open>\<ge> 1\<close>. Copying a handle (\<open>IncRef\<close>) increments the
  refcount of its node and keeps the invariant with one more handle. Destroying or
  overwriting a handle (\<open>DecRef\<close>) decrements the refcount and deallocates the node exactly
  when the count goes from 1 to 0, its children being released in turn so that the
  invariant holds with one handle less. (Nothing checks for underflow; see the
  counterexample.)
\<close>

theorem refcount_handles:
  assumes "distinct ks" "length ks * (3 * length ks + 5) < fuel"
  shows "(\<exists>h tree. InsertAll_h fuel ndebug [] None ks = Inr (h, tree)
            \<and> rc_inv h {} (tree_roots tree)
            \<and> (\<forall>a. reach h (tree_roots tree) a \<longrightarrow> (\<exists>c. lookup h a = Some c \<and> 1 \<le> c_refcount c)))
    \<and> (\<forall>h R a. rc_inv h {} R \<and> reach h R a \<longrightarrow> (\<exists>c. lookup h a = Some c \<and> 1 \<le> c_refcount c))
    \<and> (\<forall>h R a c. rc_inv h {} R \<and> lookup h a = Some c \<longrightarrow>
          IncRef h (Some a) = Inr (h[a := Some (c\<lparr>c_refcount := c_refcount c + 1\<rparr>)])
          \<and> rc_inv (h[a := Some (c\<lparr>c_refcount := c_refcount c + 1\<rparr>)]) {} (add_mset a R))
    \<and> (\<forall>h R a c f. rc_inv h {} (add_mset a R) \<and> lookup h a = Some c \<and> length h < f \<longrightarrow>
          (\<exists>h'. DecRef f h (Some a) = Inr h' \<and> rc_inv h' {} R
             \<and> lookup h' a = (if c_refcount c = 1 then None
                               else Some (c\<lparr>c_refcount := c_refcount c - 1\<rparr>))))"
proof -
  from InsertAll_distinct_ok[OF assms(1), of ndebug] obtain T where
    T: "InsertAll ndebug None ks = Inr T" by blast
  have "rc_inv [] {} (tree_roots None + {#})" "repr_tree [] None None"
    "length ([] :: heap) + length ks * (3 * (length (keys_of (None :: unit AVLTree)) + length ks) + 5) < fuel"
    using assms(2) by (simp_all add: rc_inv_empty tree_roots_def repr_tree_def keys_of_def)
  from InsertAll_h_refines[OF this(1,2) T this(3)] obtain h tree where
    h: "InsertAll_h fuel ndebug [] None ks = Inr (h, tree)" "rc_inv h {} (tree_roots tree)"
    by auto
  have 1: "\<exists>h tree. InsertAll_h fuel ndebug [] None ks = Inr (h, tree)
            \<and> rc_inv h {} (tree_roots tree)
            \<and> (\<forall>a. reach h (tree_roots tree) a \<longrightarrow> (\<exists>c. lookup h a = Some c \<and> 1 \<le> c_refcount c))"
    using h reach_refcount by blast
  have 2: "\<exists>c. lookup h a = Some c \<and> 1 \<le> c_refcount c" if "rc_inv h {} R" "reach h R a"
    for h R a
    using that by (rule reach_refcount)
  have 3: "IncRef h (Some a) = Inr (h[a := Some (c\<lparr>c_refcount := c_refcount c + 1\<rparr>)])
          \<and> rc_inv (h[a := Some (c\<lparr>c_refcount := c_refcount c + 1\<rparr>)]) {} (add_mset a R)"
    if "rc_inv h {} R" "lookup h a = Some c" for h R a c
  proof -
    have "ptr_ok h {} (Some a)" using that(2) by (simp add: ptr_ok_def alive_def)
    from IncRef_inv[OF that(1) this] show ?thesis using that(2) by (simp add: IncRef_def)
  qed
  have 4: "\<exists>h'. DecRef f h (Some a) = Inr h' \<and> rc_inv h' {} R
             \<and> lookup h' a = (if c_refcount c = 1 then None
                               else Some (c\<lparr>c_refcount := c_refcount c - 1\<rparr>))"
    if "rc_inv h {} (add_mset a R)" "lookup h a = Some c" "length h < f" for h R a c f
  proof -
    have "alive_count h {} \<le> length h" by (rule alive_count_le)
    then have f: "alive_count h {} < f" using that(3) by simp
    have "rc_inv h {} (ptr_mset (Some a) + R)" using that(1) by simp
    from DecRef_inv[OF this f] obtain h' where
      h': "DecRef f h (Some a) = Inr h'" "rc_inv h' {} R" by blast
    then show ?thesis using DecRef_target[OF h'(1) that(2)] by blast
  qed
  show ?thesis using 1 2 3 4 by blast
qed

text \<open>
  After inserting \<open>c\<close>, \<open>b\<close>, \<open>a\<close> the three nodes of the tree have refcount 1 and the four
  nodes of the earlier versions are freed.
\<close>

theorem refcount_handles_witness:
  "distinct [''c'', ''b'', ''a'']
   \<and> length [''c'', ''b'', ''a''] * (3 * length [''c'', ''b'', ''a''] + 5) < 43
   \<and> InsertAll_h 43 False [] None [''c'', ''b'', ''a'']
     = Inr ([None, None, None,
             Some \<lparr>c_refcount = 1, c_height = 1, c_left = None, c_right = None, c_value = ''a''\<rparr>,
             None,
             Some \<lparr>c_refcount = 1, c_height = 1, c_left = None, c_right = None, c_value = ''c''\<rparr>,
             Some \<lparr>c_refcount = 1, c_height = 2, c_left = Some 3, c_right = Some 5, c_value = ''b''\<rparr>],
            Some (Some 6))
   \<and> rc_inv [None, None, None,
             Some \<lparr>c_refcount = 1, c_height = 1, c_left = None, c_right = None, c_value = ''a''\<rparr>,
             None,
             Some \<lparr>c_refcount = 1, c_height = 1, c_left = None, c_right = None, c_value = ''c''\<rparr>,
             Some \<lparr>c_refcount = 1, c_height = 2, c_left = Some 3, c_right = Some 5, c_value = ''b''\<rparr>]
        {} {#6#}"
proof -
  have d: "distinct [''c'', ''b'', ''a'']" by simp
  have f: "length [''c'', ''b'', ''a''] * (3 * length [''c'', ''b'', ''a''] + 5) < 43" by simp
  have e: "InsertAll_h 43 False [] None [''c'', ''b'', ''a'']
     = Inr ([None, None, None,
             Some \<lparr>c_refcount = 1, c_height = 1, c_left = None, c_right = None, c_value = ''a''\<rparr>,
             None,
             Some \<lparr>c_refcount = 1, c_height = 1, c_left = None, c_right = None, c_value = ''c''\<rparr>,
             Some \<lparr>c_refcount = 1, c_height = 2, c_left = Some 3, c_right = Some 5, c_value = ''b''\<rparr>],
            Some (Some 6))"
    by code_simp
  from refcount_handles [OF d f, of False] obtain h tree where
    "InsertAll_h 43 False [] None [''c'', ''b'', ''a''] = Inr (h, tree)" "rc_inv h {} (tree_roots tree)"
    by blast
  then show ?thesis using d f e by (auto simp: tree_roots_def)
qed

text \<open>
  C6 as stated fails on underflow: \<open>DecRef\<close> on a node whose refcount is 0 returns,
  leaving the refcount at \<open>-1\<close> and the node allocated; nothing aborts.
\<close>

theorem DecRef_underflow_counterexample:
  "DecRef 1 [Some \<lparr>c_refcount = 0, c_height = 1, c_left = None, c_right = None, c_value = ''a''\<rparr>] (Some 0)
     = Inr [Some \<lparr>c_refcount = - 1, c_height = 1, c_left = None, c_right = None, c_value = ''a''\<rparr>]"
  by (simp add: lookup_def)

end
